theory Spec2Isabelle
  imports Complex_Main "HOL-Library.AList" "HOL-Library.List_Lexorder"
begin

chapter \<open>HeartQL: health-export ingestion and post-processing\<close>

text \<open>
  A shallow embedding of \<^verbatim>\<open>scripts/health_postprocess.py\<close> and
  \<^verbatim>\<open>scripts/health_to_sqlite.py\<close>. Python strings are sequences of Unicode code
  points, so they are modelled as lists of natural numbers; \<^verbatim>\<open>None\<close> is \<open>None\<close>.
  Arithmetic on finite floats is idealised as arithmetic on real numbers (no rounding, no
  overflow); the coordinates of the route import, which can be NaN or infinite, are
  floats with these values (\<open>pyfloat\<close>).
\<close>

section \<open>Model\<close>

subsection \<open>Strings\<close>

type_synonym ustring = "nat list"

text \<open>An ASCII literal as a code-point string.\<close>

definition ustr :: "string \<Rightarrow> ustring" where
  "ustr s = map of_char s"

text \<open>
  The code points for which \<^verbatim>\<open>str.isspace\<close> holds; the regular expression class
  \<^verbatim>\<open>\s\<close> on a \<^verbatim>\<open>str\<close> pattern and \<^verbatim>\<open>str.strip()\<close> both use it.
\<close>

definition is_space :: "nat \<Rightarrow> bool" where
  "is_space c \<longleftrightarrow>
     (9 \<le> c \<and> c \<le> 13) \<or> (28 \<le> c \<and> c \<le> 32) \<or> c = 133 \<or> c = 160 \<or>
     c = 5760 \<or> (8192 \<le> c \<and> c \<le> 8202) \<or> c = 8232 \<or> c = 8233 \<or>
     c = 8239 \<or> c = 8287 \<or> c = 12288"

text \<open>\<^verbatim>\<open>s.replace(a, b)\<close> for one-character \<open>a\<close> and \<open>b\<close>.\<close>

definition replace_char :: "nat \<Rightarrow> nat \<Rightarrow> ustring \<Rightarrow> ustring" where
  "replace_char a b s = map (\<lambda>c. if c = a then b else c) s"

text \<open>
  \<^verbatim>\<open>re.sub(r"\s+", " ", s)\<close>: scanning from the left, every maximal run of whitespace
  is replaced by one U+0020.
\<close>

function sub_spaces :: "ustring \<Rightarrow> ustring" where
  "sub_spaces [] = []"
| "sub_spaces (c # cs) =
     (if is_space c then 32 # sub_spaces (dropWhile is_space cs) else c # sub_spaces cs)"
  by pat_completeness auto
termination
  by (relation "measure length") (auto simp: less_Suc_eq_le length_dropWhile_le)

text \<open>\<^verbatim>\<open>s.strip()\<close>: leading and trailing whitespace removed.\<close>

definition strip :: "ustring \<Rightarrow> ustring" where
  "strip s = rev (dropWhile is_space (rev (dropWhile is_space s)))"

subsection \<open>Source-name normalisation\<close>

definition normalize_source_name :: "ustring option \<Rightarrow> ustring option" where
  "normalize_source_name v =
     (case v of
        None \<Rightarrow> None
      | Some s \<Rightarrow>
          (let cleaned = replace_char 8216 39 (replace_char 8217 39 s);
               cleaned = replace_char 160 32 cleaned;
               cleaned = strip (sub_spaces cleaned)
           in Some cleaned))"


subsection \<open>Floats and exceptions\<close>

text \<open>
  A Python float: a finite number, NaN or an infinity. \<^verbatim>\<open>float\<close> accepts the texts
  \<^verbatim>\<open>nan\<close> and \<^verbatim>\<open>inf\<close>, so coordinates can be any of these. Arithmetic on
  finite numbers is idealised as real arithmetic (no rounding, no overflow).
\<close>

datatype pyfloat = Finite real | Nan | PosInf | NegInf

text \<open>The exceptions the two scripts can end in.\<close>

datatype error = ValueError | IntegrityError

definition bind_err :: "error + 'a \<Rightarrow> ('a \<Rightarrow> error + 'b) \<Rightarrow> error + 'b" where
  "bind_err r f = (case r of Inl e \<Rightarrow> Inl e | Inr v \<Rightarrow> f v)"

fun f_add :: "pyfloat \<Rightarrow> pyfloat \<Rightarrow> pyfloat" where
  "f_add (Finite a) (Finite b) = Finite (a + b)"
| "f_add Nan y = Nan"
| "f_add x Nan = Nan"
| "f_add PosInf NegInf = Nan"
| "f_add NegInf PosInf = Nan"
| "f_add PosInf y = PosInf"
| "f_add NegInf y = NegInf"
| "f_add x PosInf = PosInf"
| "f_add x NegInf = NegInf"

fun f_neg :: "pyfloat \<Rightarrow> pyfloat" where
  "f_neg (Finite a) = Finite (- a)"
| "f_neg Nan = Nan"
| "f_neg PosInf = NegInf"
| "f_neg NegInf = PosInf"

definition f_sub :: "pyfloat \<Rightarrow> pyfloat \<Rightarrow> pyfloat" where
  "f_sub x y = f_add x (f_neg y)"

text \<open>The sign of a float that is not NaN, for the sign of a product.\<close>

fun f_sign :: "pyfloat \<Rightarrow> int" where
  "f_sign (Finite a) = (if a < 0 then - 1 else if a = 0 then 0 else 1)"
| "f_sign PosInf = 1"
| "f_sign NegInf = - 1"
| "f_sign Nan = 0"

fun f_mul :: "pyfloat \<Rightarrow> pyfloat \<Rightarrow> pyfloat" where
  "f_mul (Finite a) (Finite b) = Finite (a * b)"
| "f_mul Nan y = Nan"
| "f_mul x Nan = Nan"
| "f_mul x y =
     (if f_sign x * f_sign y = 0 then Nan
      else if f_sign x * f_sign y < 0 then NegInf else PosInf)"

text \<open>Division by the finite non-zero constant \<open>c\<close>, here always 2.0.\<close>

fun f_div_const :: "pyfloat \<Rightarrow> real \<Rightarrow> pyfloat" where
  "f_div_const (Finite a) c = Finite (a / c)"
| "f_div_const x c = f_mul x (Finite (1 / c))"

text \<open>\<^verbatim>\<open>x ** 2\<close>.\<close>

definition f_sq :: "pyfloat \<Rightarrow> pyfloat" where
  "f_sq x = f_mul x x"

text \<open>\<^verbatim>\<open>x < y\<close>: false whenever one side is NaN.\<close>

fun f_less :: "pyfloat \<Rightarrow> pyfloat \<Rightarrow> bool" where
  "f_less (Finite a) (Finite b) = (a < b)"
| "f_less Nan y = False"
| "f_less x Nan = False"
| "f_less x NegInf = False"
| "f_less NegInf y = True"
| "f_less PosInf y = False"
| "f_less x PosInf = True"

text \<open>
  \<^verbatim>\<open>math.radians\<close>, and the functions of \<^verbatim>\<open>math\<close> that raise
  \<^verbatim>\<open>ValueError\<close> outside their domain: \<^verbatim>\<open>sin\<close> and \<^verbatim>\<open>cos\<close> at an infinity,
  \<^verbatim>\<open>sqrt\<close> below 0, \<^verbatim>\<open>asin\<close> outside [-1, 1]. All of them pass NaN on.
\<close>

definition radians :: "pyfloat \<Rightarrow> pyfloat" where
  "radians x = f_mul x (Finite (pi / 180))"

fun py_sin :: "pyfloat \<Rightarrow> error + pyfloat" where
  "py_sin (Finite a) = Inr (Finite (sin a))"
| "py_sin Nan = Inr Nan"
| "py_sin x = Inl ValueError"

fun py_cos :: "pyfloat \<Rightarrow> error + pyfloat" where
  "py_cos (Finite a) = Inr (Finite (cos a))"
| "py_cos Nan = Inr Nan"
| "py_cos x = Inl ValueError"

fun py_sqrt :: "pyfloat \<Rightarrow> error + pyfloat" where
  "py_sqrt (Finite a) = (if a < 0 then Inl ValueError else Inr (Finite (sqrt a)))"
| "py_sqrt Nan = Inr Nan"
| "py_sqrt PosInf = Inr PosInf"
| "py_sqrt NegInf = Inl ValueError"

fun py_asin :: "pyfloat \<Rightarrow> error + pyfloat" where
  "py_asin (Finite a) = (if - 1 \<le> a \<and> a \<le> 1 then Inr (Finite (arcsin a)) else Inl ValueError)"
| "py_asin Nan = Inr Nan"
| "py_asin x = Inl ValueError"

text \<open>
  A float as SQLite stores it in a \<^verbatim>\<open>REAL\<close> column: NaN is stored as
  \<^verbatim>\<open>NULL\<close>. The rows below hold the stored values.
\<close>

definition sql_real :: "pyfloat \<Rightarrow> pyfloat option" where
  "sql_real x = (if x = Nan then None else Some x)"

definition sql_real_opt :: "pyfloat option \<Rightarrow> pyfloat option" where
  "sql_real_opt v = (case v of None \<Rightarrow> None | Some x \<Rightarrow> sql_real x)"

subsection \<open>Great-circle distance\<close>

text \<open>
  The operands are evaluated in the order of the source; each call into \<^verbatim>\<open>math\<close>
  may raise.
\<close>

definition haversine_km :: "pyfloat \<Rightarrow> pyfloat \<Rightarrow> pyfloat \<Rightarrow> pyfloat \<Rightarrow> error + pyfloat" where
  "haversine_km lat1 lon1 lat2 lon2 =
     (let r = Finite 6371.0088;
          phi1 = radians lat1;
          phi2 = radians lat2;
          dphi = radians (f_sub lat2 lat1);
          dlambda = radians (f_sub lon2 lon1)
      in bind_err (py_sin (f_div_const dphi 2)) (\<lambda>s1.
         bind_err (py_cos phi1) (\<lambda>c1.
         bind_err (py_cos phi2) (\<lambda>c2.
         bind_err (py_sin (f_div_const dlambda 2)) (\<lambda>s2.
         let a = f_add (f_sq s1) (f_mul (f_mul c1 c2) (f_sq s2)) in
         bind_err (py_sqrt a) (\<lambda>q.
         bind_err (py_asin q) (\<lambda>t.
         Inr (f_mul (f_mul (Finite 2) r) t))))))))"

subsection \<open>The store of the post-process stage\<close>

text \<open>
  A track point as the parsing loop collects it: \<^verbatim>\<open>(lat, lon, ele, time)\<close>; a row of
  \<^verbatim>\<open>workout_route_points\<close>: \<^verbatim>\<open>(route_id, point_index, lat, lon, ele, time)\<close>.
  A coordinate is \<open>None\<close> when the attribute is absent, empty or not a float.
\<close>

type_synonym point = "pyfloat option \<times> pyfloat option \<times> pyfloat option \<times> ustring option"

type_synonym point_row =
  "int \<times> nat \<times> pyfloat option \<times> pyfloat option \<times> pyfloat option \<times> ustring option"

record route_row =
  route_id :: int
  route_file_path :: ustring
  start_time :: "ustring option"
  end_time :: "ustring option"
  point_count :: nat
  distance_km :: "pyfloat option"
  min_lat :: "pyfloat option"
  max_lat :: "pyfloat option"
  min_lon :: "pyfloat option"
  max_lon :: "pyfloat option"

text \<open>
  A row of \<^verbatim>\<open>ecg_records\<close>. The column \<^verbatim>\<open>extra_json\<close> holds the serialised
  metadata dictionary; the model keeps the dictionary itself, in insertion order.
\<close>

record ecg_row =
  ecg_id :: int
  ecg_file_path :: ustring
  recorded_date :: "ustring option"
  classification :: "ustring option"
  symptoms :: "ustring option"
  sample_rate_hz :: "real option"
  lead :: "ustring option"
  unit_col :: "ustring option"
  device :: "ustring option"
  software_version :: "ustring option"
  extra_json :: "(ustring \<times> ustring) list"

type_synonym sample_row = "int \<times> nat \<times> real"

record store =
  workout_routes :: "route_row list"
  workout_route_points :: "point_row list"
  ecg_records :: "ecg_row list"
  ecg_samples :: "sample_row list"

text \<open>
  What the stage reads from the file system: the names \<^verbatim>\<open>os.listdir\<close> returns for a
  path (\<open>None\<close> when \<^verbatim>\<open>os.path.isdir\<close> is false), the track points the
  \<^verbatim>\<open>iterparse\<close> loop collects from the file at a path, and the rows
  \<^verbatim>\<open>csv.reader\<close> yields for the file at a path. Files the XML and CSV libraries
  reject are outside the model.
\<close>

record filesystem =
  listdir :: "ustring \<Rightarrow> ustring list option"
  gpx_points :: "ustring \<Rightarrow> point list"
  csv_rows :: "ustring \<Rightarrow> ustring list list"

text \<open>
  \<^verbatim>\<open>SELECT MAX(id) FROM table\<close> followed by the test of \<^verbatim>\<open>_next_id\<close>. The argument
  is the id column, \<open>None\<close> when the table does not exist
  (\<^verbatim>\<open>sqlite3.OperationalError\<close>).
\<close>

definition next_id :: "int list option \<Rightarrow> int" where
  "next_id ids =
     (case ids of
        None \<Rightarrow> 1
      | Some xs \<Rightarrow> if xs = [] then 1 else Max (set xs) + 1)"

text \<open>
  \<^verbatim>\<open>list_existing\<close>: the set of stored paths, empty when the table does not exist.
\<close>

definition list_existing :: "ustring list option \<Rightarrow> ustring set" where
  "list_existing paths = (case paths of None \<Rightarrow> {} | Some ps \<Rightarrow> set ps)"

text \<open>
  One \<^verbatim>\<open>INSERT OR IGNORE\<close> into a table whose \<^verbatim>\<open>id\<close> is the primary key and
  whose \<^verbatim>\<open>file_path\<close> is \<^verbatim>\<open>UNIQUE\<close>: a row that collides on either column is
  dropped and the table is left as it was.
\<close>

definition insert_or_ignore :: "('r \<Rightarrow> int) \<Rightarrow> ('r \<Rightarrow> ustring) \<Rightarrow> 'r list \<Rightarrow> 'r \<Rightarrow> 'r list" where
  "insert_or_ignore key path tbl row =
     (if \<exists>r\<in>set tbl. key r = key row \<or> path r = path row then tbl else tbl @ [row])"

definition flush_routes :: "store \<Rightarrow> route_row list \<Rightarrow> point_row list \<Rightarrow> store" where
  "flush_routes conn route_rows point_rows =
     conn\<lparr>workout_routes :=
            foldl (insert_or_ignore route_id route_file_path) (workout_routes conn) route_rows,
          workout_route_points := workout_route_points conn @ point_rows\<rparr>"

definition flush_ecg :: "store \<Rightarrow> ecg_row list \<Rightarrow> sample_row list \<Rightarrow> store" where
  "flush_ecg conn record_rows sample_rows =
     conn\<lparr>ecg_records :=
            foldl (insert_or_ignore ecg_id ecg_file_path) (ecg_records conn) record_rows,
          ecg_samples := ecg_samples conn @ sample_rows\<rparr>"

subsection \<open>Paths and file names\<close>

text \<open>\<^verbatim>\<open>os.path.join\<close> of two components (POSIX).\<close>

definition path_join :: "ustring \<Rightarrow> ustring \<Rightarrow> ustring" where
  "path_join a b =
     (if b \<noteq> [] \<and> hd b = 47 then b
      else if a = [] \<or> last a = 47 then a @ b
      else a @ [47] @ b)"

text \<open>
  \<^verbatim>\<open>str.lower\<close>. Only the case mapping of the ASCII letters is modelled: no other code
  point has a lower-case form that contains a character of \<^verbatim>\<open>.gpx\<close> or
  \<^verbatim>\<open>.csv\<close>, so the two suffix tests below agree with Python's on every name.
\<close>

definition lower :: "ustring \<Rightarrow> ustring" where
  "lower s = map (\<lambda>c. if 65 \<le> c \<and> c \<le> 90 then c + 32 else c) s"

definition endswith :: "ustring \<Rightarrow> ustring \<Rightarrow> bool" where
  "endswith s suffix \<longleftrightarrow>
     length suffix \<le> length s \<and> drop (length s - length suffix) s = suffix"

subsection \<open>Route import\<close>

text \<open>
  The loop over \<^verbatim>\<open>enumerate(points)\<close>, with the variables it updates:
  \<^verbatim>\<open>last_point\<close>, \<^verbatim>\<open>distance_km\<close> and \<^verbatim>\<open>point_rows\<close>. A call of
  \<^verbatim>\<open>haversine_km\<close> that raises ends the loop, and the import with it.
\<close>

fun points_loop ::
  "int \<Rightarrow> nat \<Rightarrow> point list \<Rightarrow> (pyfloat \<times> pyfloat) option \<Rightarrow> pyfloat \<Rightarrow> point_row list \<Rightarrow>
   error + (pyfloat \<times> pyfloat) option \<times> pyfloat \<times> point_row list" where
  "points_loop rid idx [] last_point d_km point_rows = Inr (last_point, d_km, point_rows)"
| "points_loop rid idx ((lat, lon, ele, time) # points) last_point d_km point_rows =
     (let row = (rid, idx, sql_real_opt lat, sql_real_opt lon, sql_real_opt ele, time) in
      case (lat, lon) of
        (Some la, Some lo) \<Rightarrow>
          (case last_point of
             None \<Rightarrow> points_loop rid (Suc idx) points (Some (la, lo)) d_km (point_rows @ [row])
           | Some (la0, lo0) \<Rightarrow>
               bind_err (haversine_km la lo la0 lo0) (\<lambda>h.
                 points_loop rid (Suc idx) points (Some (la, lo)) (f_add d_km h)
                   (point_rows @ [row])))
      | _ \<Rightarrow> points_loop rid (Suc idx) points last_point d_km (point_rows @ [row]))"

text \<open>
  \<^verbatim>\<open>min\<close> and \<^verbatim>\<open>max\<close> of a non-empty list as Python computes them: the first
  element, replaced by each later one that compares less (greater) than the current
  choice; and \<^verbatim>\<open>min(xs) if xs else None\<close> as stored.
\<close>

definition py_min :: "pyfloat list \<Rightarrow> pyfloat" where
  "py_min xs = foldl (\<lambda>m x. if f_less x m then x else m) (hd xs) (tl xs)"

definition py_max :: "pyfloat list \<Rightarrow> pyfloat" where
  "py_max xs = foldl (\<lambda>m x. if f_less m x then x else m) (hd xs) (tl xs)"

definition some_min :: "pyfloat list \<Rightarrow> pyfloat option" where
  "some_min xs = (if xs = [] then None else sql_real (py_min xs))"

definition some_max :: "pyfloat list \<Rightarrow> pyfloat option" where
  "some_max xs = (if xs = [] then None else sql_real (py_max xs))"

text \<open>
  The body of the file loop from \<^verbatim>\<open>distance_km = 0.0\<close> to the construction of the
  route row, for a non-empty point list: the row and the point rows of the file, or the
  exception raised on the way.
\<close>

definition route_of_file ::
  "int \<Rightarrow> ustring \<Rightarrow> point list \<Rightarrow> error + route_row \<times> point_row list" where
  "route_of_file rid path points =
     (let lats = List.map_filter (\<lambda>(lat, lon, ele, time). lat) points;
          lons = List.map_filter (\<lambda>(lat, lon, ele, time). lon) points
      in bind_err (points_loop rid 0 points None (Finite 0) [])
           (\<lambda>(last_point, d_km, prows).
              Inr (\<lparr>route_id = rid,
                    route_file_path = path,
                    start_time = snd (snd (snd (hd points))),
                    end_time = snd (snd (snd (last points))),
                    point_count = length points,
                    distance_km = sql_real d_km,
                    min_lat = some_min lats,
                    max_lat = some_max lats,
                    min_lon = some_min lons,
                    max_lon = some_max lons\<rparr>, prows)))"

record route_state =
  rs_conn :: store
  rs_route_rows :: "route_row list"
  rs_point_rows :: "point_row list"
  rs_route_id :: int
  rs_inserted :: nat

text \<open>One iteration of the loop over the sorted directory listing.\<close>

definition route_file_step ::
  "filesystem \<Rightarrow> ustring \<Rightarrow> bool \<Rightarrow> ustring set \<Rightarrow> route_state \<Rightarrow> ustring \<Rightarrow> error + route_state" where
  "route_file_step fs routes_dir skip_existing existing st name =
     (if \<not> endswith (lower name) (ustr ''.gpx'') then Inr st
      else
        let path = path_join routes_dir name in
        if skip_existing \<and> path \<in> existing then Inr st
        else
          let points = gpx_points fs path in
          if points = [] then Inr st
          else
            bind_err (route_of_file (rs_route_id st) path points) (\<lambda>(row, prows).
              let st1 = st\<lparr>rs_route_rows := rs_route_rows st @ [row],
                           rs_point_rows := rs_point_rows st @ prows,
                           rs_route_id := rs_route_id st + 1,
                           rs_inserted := rs_inserted st + 1\<rparr>
              in if length (rs_point_rows st1) \<ge> 20000
                 then Inr (st1\<lparr>rs_conn := flush_routes (rs_conn st1) (rs_route_rows st1)
                                             (rs_point_rows st1),
                               rs_route_rows := [],
                               rs_point_rows := []\<rparr>)
                 else Inr st1))"

text \<open>
  The loop over the sorted listing: the state it ends in and the exception that ended it,
  if one did.
\<close>

fun routes_loop ::
  "filesystem \<Rightarrow> ustring \<Rightarrow> bool \<Rightarrow> ustring set \<Rightarrow> route_state \<Rightarrow> ustring list \<Rightarrow>
   route_state \<times> error option" where
  "routes_loop fs routes_dir skip_existing existing st [] = (st, None)"
| "routes_loop fs routes_dir skip_existing existing st (name # names) =
     (case route_file_step fs routes_dir skip_existing existing st name of
        Inl e \<Rightarrow> (st, Some e)
      | Inr st' \<Rightarrow> routes_loop fs routes_dir skip_existing existing st' names)"

text \<open>
  The import returns the store it leaves behind and either the number of files ingested
  or the uncaught exception. Rows reach the store only in \<^verbatim>\<open>_flush_routes\<close>, which
  commits, so a run that ends in an exception leaves what the flushes before it wrote.
\<close>

definition import_workout_routes ::
  "filesystem \<Rightarrow> store \<Rightarrow> ustring \<Rightarrow> bool \<Rightarrow> store \<times> (error + nat)" where
  "import_workout_routes fs conn routes_dir skip_existing =
     (case listdir fs routes_dir of
        None \<Rightarrow> (conn, Inr 0)
      | Some names \<Rightarrow>
          let existing = (if skip_existing
                          then list_existing (Some (map route_file_path (workout_routes conn)))
                          else {});
              st0 = \<lparr>rs_conn = conn, rs_route_rows = [], rs_point_rows = [],
                     rs_route_id = next_id (Some (map route_id (workout_routes conn))),
                     rs_inserted = 0\<rparr>;
              (st, raised) = routes_loop fs routes_dir skip_existing existing st0 (sort names)
          in case raised of
               Some e \<Rightarrow> (rs_conn st, Inl e)
             | None \<Rightarrow>
                 (flush_routes (rs_conn st) (rs_route_rows st) (rs_point_rows st),
                  Inr (rs_inserted st)))"

subsection \<open>ECG files\<close>

text \<open>
  The pattern \<^verbatim>\<open>^[+-]?\d+(\.\d+)?$\<close> and \<^verbatim>\<open>float\<close> on a string it matches. The
  class \<^verbatim>\<open>\d\<close> is the set of Unicode decimal digits of the running Python; the
  table \<open>dv\<close> gives the value of each such digit and \<open>None\<close> for every other code
  point. \<^verbatim>\<open>$\<close> also matches before one final newline.
\<close>

definition drop_sign :: "ustring \<Rightarrow> ustring" where
  "drop_sign s = (if s \<noteq> [] \<and> (hd s = 43 \<or> hd s = 45) then tl s else s)"

definition at_end :: "ustring \<Rightarrow> bool" where
  "at_end r \<longleftrightarrow> r = [] \<or> r = [10]"

definition number_re_match :: "(nat \<Rightarrow> nat option) \<Rightarrow> ustring \<Rightarrow> bool" where
  "number_re_match dv s \<longleftrightarrow>
     (let is_d = (\<lambda>c. dv c \<noteq> None);
          body = drop_sign s;
          r = dropWhile is_d body
      in takeWhile is_d body \<noteq> [] \<and>
         (at_end r \<or>
          (r \<noteq> [] \<and> hd r = 46 \<and> takeWhile is_d (tl r) \<noteq> [] \<and> at_end (dropWhile is_d (tl r)))))"

definition digits_value :: "(nat \<Rightarrow> nat option) \<Rightarrow> ustring \<Rightarrow> nat" where
  "digits_value dv ds = foldl (\<lambda>a c. 10 * a + the (dv c)) 0 ds"

definition py_float :: "(nat \<Rightarrow> nat option) \<Rightarrow> ustring \<Rightarrow> real" where
  "py_float dv s =
     (let is_d = (\<lambda>c. dv c \<noteq> None);
          body = drop_sign s;
          ip = takeWhile is_d body;
          r = dropWhile is_d body;
          fp = (if r \<noteq> [] \<and> hd r = 46 then takeWhile is_d (tl r) else [])
      in (if s \<noteq> [] \<and> hd s = 45 then - 1 else 1) *
         (real (digits_value dv ip) + real (digits_value dv fp) / 10 ^ length fp))"

text \<open>The ASCII digits and their values.\<close>

definition ascii_digit :: "nat \<Rightarrow> nat option" where
  "ascii_digit c = (if 48 \<le> c \<and> c \<le> 57 then Some (c - 48) else None)"

text \<open>The body of the loop over the rows of \<^verbatim>\<open>csv.reader\<close>.\<close>

definition ecg_row_step ::
  "(nat \<Rightarrow> nat option) \<Rightarrow> (ustring \<times> ustring) list \<times> real list \<Rightarrow> ustring list \<Rightarrow>
   (ustring \<times> ustring) list \<times> real list" where
  "ecg_row_step dv st row =
     (case st of (metadata, samples) \<Rightarrow>
        if row = [] then (metadata, samples)
        else if length row = 1 then
          let value = strip (row ! 0) in
          if value = [] then (metadata, samples)
          else if number_re_match dv value then (metadata, samples @ [py_float dv value])
          else (metadata, samples)
        else
          let key = strip (row ! 0);
              value = (if length row > 1 then strip (row ! 1) else [])
          in (AList.update key value metadata, samples))"

definition parse_ecg_csv ::
  "(nat \<Rightarrow> nat option) \<Rightarrow> ustring list list \<Rightarrow> (ustring \<times> ustring) list \<times> real list" where
  "parse_ecg_csv dv rows = foldl (ecg_row_step dv) ([], []) rows"

text \<open>
  \<^verbatim>\<open>_parse_sample_rate\<close>: the first match of \<^verbatim>\<open>[0-9]+(\.[0-9]+)?\<close> anywhere in
  the value.
\<close>

definition parse_sample_rate :: "ustring option \<Rightarrow> real option" where
  "parse_sample_rate value =
     (case value of
        None \<Rightarrow> None
      | Some v \<Rightarrow>
          let is_d = (\<lambda>c. ascii_digit c \<noteq> None);
              m = dropWhile (\<lambda>c. \<not> is_d c) v
          in if m = [] then None
             else
               let ip = takeWhile is_d m;
                   r = dropWhile is_d m;
                   fp = (if r \<noteq> [] \<and> hd r = 46 then takeWhile is_d (tl r) else [])
               in Some (real (digits_value ascii_digit ip) +
                        real (digits_value ascii_digit fp) / 10 ^ length fp))"

definition ecg_of_file ::
  "int \<Rightarrow> ustring \<Rightarrow> (ustring \<times> ustring) list \<Rightarrow> real list \<Rightarrow> ecg_row \<times> sample_row list" where
  "ecg_of_file eid path metadata samples =
     (\<lparr>ecg_id = eid,
       ecg_file_path = path,
       recorded_date = map_of metadata (ustr ''Recorded Date''),
       classification = map_of metadata (ustr ''Classification''),
       symptoms = map_of metadata (ustr ''Symptoms''),
       sample_rate_hz = parse_sample_rate (map_of metadata (ustr ''Sample Rate'')),
       lead = map_of metadata (ustr ''Lead''),
       unit_col = map_of metadata (ustr ''Unit''),
       device = map_of metadata (ustr ''Device''),
       software_version = map_of metadata (ustr ''Software Version''),
       extra_json = metadata\<rparr>,
      map (\<lambda>(idx, v). (eid, idx, v)) (enumerate 0 samples))"

record ecg_state =
  es_conn :: store
  es_record_rows :: "ecg_row list"
  es_sample_rows :: "sample_row list"
  es_ecg_id :: int
  es_inserted :: nat

definition ecg_file_step ::
  "(nat \<Rightarrow> nat option) \<Rightarrow> filesystem \<Rightarrow> ustring \<Rightarrow> bool \<Rightarrow> ustring set \<Rightarrow> ecg_state \<Rightarrow> ustring \<Rightarrow>
   ecg_state" where
  "ecg_file_step dv fs ecg_dir skip_existing existing st name =
     (if \<not> endswith (lower name) (ustr ''.csv'') then st
      else
        let path = path_join ecg_dir name in
        if skip_existing \<and> path \<in> existing then st
        else
          let (metadata, samples) = parse_ecg_csv dv (csv_rows fs path) in
          if samples = [] then st
          else
            let (row, srows) = ecg_of_file (es_ecg_id st) path metadata samples;
                st1 = st\<lparr>es_record_rows := es_record_rows st @ [row],
                         es_sample_rows := es_sample_rows st @ srows,
                         es_ecg_id := es_ecg_id st + 1,
                         es_inserted := es_inserted st + 1\<rparr>
            in if length (es_sample_rows st1) \<ge> 20000
               then st1\<lparr>es_conn := flush_ecg (es_conn st1) (es_record_rows st1) (es_sample_rows st1),
                        es_record_rows := [],
                        es_sample_rows := []\<rparr>
               else st1)"

definition import_ecg ::
  "(nat \<Rightarrow> nat option) \<Rightarrow> filesystem \<Rightarrow> store \<Rightarrow> ustring \<Rightarrow> bool \<Rightarrow> store \<times> nat" where
  "import_ecg dv fs conn ecg_dir skip_existing =
     (case listdir fs ecg_dir of
        None \<Rightarrow> (conn, 0)
      | Some names \<Rightarrow>
          let existing = (if skip_existing
                          then list_existing (Some (map ecg_file_path (ecg_records conn)))
                          else {});
              st0 = \<lparr>es_conn = conn, es_record_rows = [], es_sample_rows = [],
                     es_ecg_id = next_id (Some (map ecg_id (ecg_records conn))),
                     es_inserted = 0\<rparr>;
              st = foldl (ecg_file_step dv fs ecg_dir skip_existing existing) st0 (sort names)
          in (flush_ecg (es_conn st) (es_record_rows st) (es_sample_rows st), es_inserted st))"

subsection \<open>The post-process stage\<close>

text \<open>
  \<^verbatim>\<open>main\<close> of the post-process script, from the two imports on: the store the run
  leaves and either the two counts it prints or the uncaught exception, after which the
  ECG import does not run. \<^verbatim>\<open>init_db\<close> has created the four tables before, so they
  exist; the alias table and the views it also builds do not touch them.
\<close>

definition postprocess ::
  "(nat \<Rightarrow> nat option) \<Rightarrow> filesystem \<Rightarrow> store \<Rightarrow> ustring \<Rightarrow> ustring \<Rightarrow> bool \<Rightarrow> bool \<Rightarrow> bool \<Rightarrow>
   store \<times> (error + nat \<times> nat)" where
  "postprocess dv fs conn routes_dir ecg_dir skip_existing no_routes no_ecg =
     (let (conn1, r) =
            (if \<not> no_routes then import_workout_routes fs conn routes_dir skip_existing
             else (conn, Inr 0))
      in case r of
           Inl e \<Rightarrow> (conn1, Inl e)
         | Inr routes_added \<Rightarrow>
             let (conn2, ecg_added) =
                   (if \<not> no_ecg then import_ecg dv fs conn1 ecg_dir skip_existing
                    else (conn1, 0))
             in (conn2, Inr (routes_added, ecg_added)))"

subsection \<open>Primary ingestion: rows, buffers and the store\<close>

text \<open>
  A value bound to a column: \<^verbatim>\<open>None\<close>, an integer, a float or a string. A row is the
  tuple the script appends to a buffer, as a list of such values.
\<close>

datatype cell = SqlNull | SqlInt int | SqlReal real | SqlText ustring

datatype table =
  Records | Workouts | Correlations | ActivitySummaries | ClinicalRecords | Audiograms |
  VisionPrescriptions | RecordMetadata

type_synonym db = "table \<Rightarrow> cell list list"

text \<open>
  What \<^verbatim>\<open>iterparse\<close> yields with \<^verbatim>\<open>events=("start", "end")\<close>: the event, the tag
  of the element and, at its end, its attributes.
\<close>

datatype event = Start ustring | End ustring "(ustring \<times> ustring) list"

text \<open>How a run of the ingestion script ends: an exit status, or an uncaught exception.\<close>

datatype outcome = Exit int | Raised error

text \<open>
  Library functions the script calls on attribute values: \<^verbatim>\<open>float\<close> (\<open>None\<close> for
  \<^verbatim>\<open>ValueError\<close>) and \<^verbatim>\<open>json.dumps\<close>.
\<close>

record pylib =
  float_of :: "ustring \<Rightarrow> real option"
  json_dumps :: "(ustring \<times> ustring) list \<Rightarrow> ustring"

text \<open>\<^verbatim>\<open>attrs.get(name)\<close> as a column value.\<close>

definition attr :: "(ustring \<times> ustring) list \<Rightarrow> string \<Rightarrow> cell" where
  "attr attrs name = (case map_of attrs (ustr name) of None \<Rightarrow> SqlNull | Some v \<Rightarrow> SqlText v)"

text \<open>\<^verbatim>\<open>_to_float(attrs.get(name))\<close> as a column value.\<close>

definition to_float :: "pylib \<Rightarrow> (ustring \<times> ustring) list \<Rightarrow> string \<Rightarrow> cell" where
  "to_float lib attrs name =
     (case map_of attrs (ustr name) of
        None \<Rightarrow> SqlNull
      | Some v \<Rightarrow>
          if v = [] then SqlNull
          else (case float_of lib v of None \<Rightarrow> SqlNull | Some x \<Rightarrow> SqlReal x))"

record ingest_state =
  db_conn :: db
  record_id :: int
  workout_id :: int
  correlation_id :: int
  activity_summary_id :: int
  clinical_record_id :: int
  audiogram_id :: int
  vision_id :: int
  rows_by_table :: db
  in_record :: bool
  record_metadata :: "(cell \<times> cell) list"

text \<open>
  \<^verbatim>\<open>executemany\<close> of a plain \<^verbatim>\<open>INSERT\<close>. Every table but \<^verbatim>\<open>record_metadata\<close>
  has \<^verbatim>\<open>id INTEGER PRIMARY KEY\<close> as its first column: a row whose id is already in
  the table raises \<^verbatim>\<open>sqlite3.IntegrityError\<close>.
\<close>

fun insert_rows :: "table \<Rightarrow> cell list list \<Rightarrow> cell list list \<Rightarrow> error + cell list list" where
  "insert_rows t tbl [] = Inr tbl"
| "insert_rows t tbl (row # rows) =
     (if t \<noteq> RecordMetadata \<and> hd row \<in> set (map hd tbl) then Inl IntegrityError
      else insert_rows t (tbl @ [row]) rows)"

text \<open>
  \<^verbatim>\<open>flush\<close>: one \<^verbatim>\<open>executemany\<close> per table with buffered rows, the buffer cleared
  after it, and one commit at the end. The inserts and the commit are one transaction; an
  exception leaves the run without a commit, so the store keeps what the previous flush
  committed, and the order in which the tables are visited does not show.
\<close>

fun flush_tables :: "table list \<Rightarrow> db \<Rightarrow> db \<Rightarrow> error + db" where
  "flush_tables [] c rows = Inr c"
| "flush_tables (t # ts) c rows =
     (case insert_rows t (c t) (rows t) of
        Inl e \<Rightarrow> Inl e
      | Inr tbl \<Rightarrow> flush_tables ts (c(t := tbl)) rows)"

definition all_tables :: "table list" where
  "all_tables =
     [Records, Workouts, Correlations, ActivitySummaries, ClinicalRecords, Audiograms,
      VisionPrescriptions, RecordMetadata]"

definition flush :: "ingest_state \<Rightarrow> error + ingest_state" where
  "flush st =
     (case flush_tables all_tables (db_conn st) (rows_by_table st) of
        Inl e \<Rightarrow> Inl e
      | Inr c \<Rightarrow> Inr (st\<lparr>db_conn := c, rows_by_table := (\<lambda>t. [])\<rparr>))"

definition append_row :: "table \<Rightarrow> cell list \<Rightarrow> ingest_state \<Rightarrow> ingest_state" where
  "append_row t row st = st\<lparr>rows_by_table := (rows_by_table st)(t := rows_by_table st t @ [row])\<rparr>"

text \<open>The chain of tests on the tag of an element that ends.\<close>

definition end_element ::
  "pylib \<Rightarrow> bool \<Rightarrow> ingest_state \<Rightarrow> ustring \<Rightarrow> (ustring \<times> ustring) list \<Rightarrow> ingest_state" where
  "end_element lib with_metadata st tag attrs =
     (if tag = ustr ''MetadataEntry'' \<and> with_metadata \<and> in_record st then
        st\<lparr>record_metadata := record_metadata st @ [(attr attrs ''key'', attr attrs ''value'')]\<rparr>
      else if tag = ustr ''Record'' then
        let st = st\<lparr>record_id := record_id st + 1\<rparr>;
            st = append_row Records
                   [SqlInt (record_id st), attr attrs ''type'', attr attrs ''unit'',
                    attr attrs ''value'', attr attrs ''sourceName'', attr attrs ''sourceVersion'',
                    attr attrs ''device'', attr attrs ''creationDate'', attr attrs ''startDate'',
                    attr attrs ''endDate''] st;
            st = (if with_metadata \<and> record_metadata st \<noteq> [] then
                    st\<lparr>rows_by_table := (rows_by_table st)
                         (RecordMetadata := rows_by_table st RecordMetadata @
                            map (\<lambda>(key, value). [SqlInt (record_id st), key, value])
                              (record_metadata st))\<rparr>
                  else st)
        in st\<lparr>in_record := False\<rparr>
      else if tag = ustr ''Workout'' then
        let st = st\<lparr>workout_id := workout_id st + 1\<rparr>
        in append_row Workouts
             [SqlInt (workout_id st), attr attrs ''workoutActivityType'',
              to_float lib attrs ''duration'', attr attrs ''durationUnit'',
              to_float lib attrs ''totalEnergyBurned'', attr attrs ''totalEnergyBurnedUnit'',
              to_float lib attrs ''totalDistance'', attr attrs ''totalDistanceUnit'',
              attr attrs ''sourceName'', attr attrs ''sourceVersion'', attr attrs ''device'',
              attr attrs ''creationDate'', attr attrs ''startDate'', attr attrs ''endDate''] st
      else if tag = ustr ''Correlation'' then
        let st = st\<lparr>correlation_id := correlation_id st + 1\<rparr>
        in append_row Correlations
             [SqlInt (correlation_id st), attr attrs ''type'', attr attrs ''sourceName'',
              attr attrs ''sourceVersion'', attr attrs ''device'', attr attrs ''creationDate'',
              attr attrs ''startDate'', attr attrs ''endDate''] st
      else if tag = ustr ''ActivitySummary'' then
        let st = st\<lparr>activity_summary_id := activity_summary_id st + 1\<rparr>
        in append_row ActivitySummaries
             [SqlInt (activity_summary_id st), attr attrs ''dateComponents'',
              to_float lib attrs ''activeEnergyBurned'', to_float lib attrs ''activeEnergyBurnedGoal'',
              attr attrs ''activeEnergyBurnedUnit'', to_float lib attrs ''appleMoveTime'',
              to_float lib attrs ''appleMoveTimeGoal'', to_float lib attrs ''appleExerciseTime'',
              to_float lib attrs ''appleExerciseTimeGoal'', to_float lib attrs ''appleStandHours'',
              to_float lib attrs ''appleStandHoursGoal''] st
      else if tag = ustr ''ClinicalRecord'' then
        let st = st\<lparr>clinical_record_id := clinical_record_id st + 1\<rparr>
        in append_row ClinicalRecords
             [SqlInt (clinical_record_id st), attr attrs ''type'', attr attrs ''sourceName'',
              attr attrs ''sourceVersion'', attr attrs ''device'', attr attrs ''creationDate'',
              attr attrs ''startDate'', attr attrs ''endDate'', attr attrs ''displayName'',
              SqlText (json_dumps lib attrs)] st
      else if tag = ustr ''Audiogram'' then
        let st = st\<lparr>audiogram_id := audiogram_id st + 1\<rparr>
        in append_row Audiograms
             [SqlInt (audiogram_id st), attr attrs ''sourceName'', attr attrs ''sourceVersion'',
              attr attrs ''device'', attr attrs ''creationDate'', attr attrs ''startDate'',
              attr attrs ''endDate'', SqlText (json_dumps lib attrs)] st
      else if tag = ustr ''VisionPrescription'' then
        let st = st\<lparr>vision_id := vision_id st + 1\<rparr>
        in append_row VisionPrescriptions
             [SqlInt (vision_id st), attr attrs ''sourceName'', attr attrs ''sourceVersion'',
              attr attrs ''device'', attr attrs ''creationDate'', attr attrs ''startDate'',
              attr attrs ''endDate'', SqlText (json_dumps lib attrs)] st
      else st)"

text \<open>The body of the loop over the events, with the threshold test that ends it.\<close>

definition handle_event ::
  "pylib \<Rightarrow> int \<Rightarrow> bool \<Rightarrow> ingest_state \<Rightarrow> event \<Rightarrow> error + ingest_state" where
  "handle_event lib batch_size with_metadata st ev =
     (case ev of
        Start tag \<Rightarrow>
          Inr (if tag = ustr ''Record'' then st\<lparr>in_record := True, record_metadata := []\<rparr> else st)
      | End tag attrs \<Rightarrow>
          let st = end_element lib with_metadata st tag attrs
          in if int (length (rows_by_table st Records)) \<ge> batch_size then flush st else Inr st)"

fun main_loop ::
  "pylib \<Rightarrow> int \<Rightarrow> bool \<Rightarrow> ingest_state \<Rightarrow> event list \<Rightarrow> (error \<times> db) + ingest_state" where
  "main_loop lib batch_size with_metadata st [] = Inr st"
| "main_loop lib batch_size with_metadata st (ev # evs) =
     (case handle_event lib batch_size with_metadata st ev of
        Inl e \<Rightarrow> Inl (e, db_conn st)
      | Inr st' \<Rightarrow> main_loop lib batch_size with_metadata st' evs)"

definition initial_state :: "db \<Rightarrow> ingest_state" where
  "initial_state c =
     \<lparr>db_conn = c, record_id = 0, workout_id = 0, correlation_id = 0, activity_summary_id = 0,
      clinical_record_id = 0, audiogram_id = 0, vision_id = 0, rows_by_table = (\<lambda>t. []),
      in_record = False, record_metadata = []\<rparr>"

text \<open>
  \<^verbatim>\<open>main\<close> of the ingestion script on the store \<open>c\<close> that \<^verbatim>\<open>init_db\<close> leaves
  (all tables exist). The export is \<open>None\<close> when the file cannot be opened
  (\<^verbatim>\<open>FileNotFoundError\<close>, exit status 2). The result is the committed store and how
  the run ended.
\<close>

definition main :: "pylib \<Rightarrow> int \<Rightarrow> bool \<Rightarrow> event list option \<Rightarrow> db \<Rightarrow> db \<times> outcome" where
  "main lib batch_size with_metadata export c =
     (case export of
        None \<Rightarrow> (c, Exit 2)
      | Some evs \<Rightarrow>
          (case main_loop lib batch_size with_metadata (initial_state c) evs of
             Inl (e, c') \<Rightarrow> (c', Raised e)
           | Inr st \<Rightarrow>
               (case flush st of
                  Inl e \<Rightarrow> (db_conn st, Raised e)
                | Inr st' \<Rightarrow> (db_conn st', Exit 0))))"

subsection \<open>The normalised view of the record table\<close>

text \<open>
  The conversion SQLite applies to a text value in \<^verbatim>\<open>CAST(... AS REAL)\<close>: leading
  white space is skipped, the longest prefix that reads as a decimal number (sign, digits,
  fraction, exponent) is converted and the rest of the text ignored; without such a prefix
  the result is 0.0.
\<close>

definition sqlite_space :: "nat \<Rightarrow> bool" where
  "sqlite_space c \<longleftrightarrow> c = 32 \<or> (9 \<le> c \<and> c \<le> 13)"

text \<open>
  The digits before and after the decimal point at the head of a text, and the rest of
  the text.
\<close>

definition decimal_parts :: "ustring \<Rightarrow> ustring \<times> ustring \<times> ustring" where
  "decimal_parts body =
     (let is_d = (\<lambda>c. ascii_digit c \<noteq> None);
          ip = takeWhile is_d body;
          r = dropWhile is_d body
      in if r \<noteq> [] \<and> hd r = 46 then (ip, takeWhile is_d (tl r), dropWhile is_d (tl r))
         else (ip, [], r))"

text \<open>The exponent that follows them: \<^verbatim>\<open>e\<close> or \<^verbatim>\<open>E\<close>, a sign, digits.\<close>

definition exponent :: "ustring \<Rightarrow> int" where
  "exponent r =
     (if r \<noteq> [] \<and> (hd r = 101 \<or> hd r = 69) then
        let ed = takeWhile (\<lambda>c. ascii_digit c \<noteq> None) (drop_sign (tl r))
        in if tl r \<noteq> [] \<and> hd (tl r) = 45 then - int (digits_value ascii_digit ed)
           else int (digits_value ascii_digit ed)
      else 0)"

definition sqlite_atof :: "ustring \<Rightarrow> real" where
  "sqlite_atof s =
     (let s1 = dropWhile sqlite_space s in
      case decimal_parts (drop_sign s1) of
        (ip, fp, r) \<Rightarrow>
          let m = real (digits_value ascii_digit ip) +
                  real (digits_value ascii_digit fp) / 10 ^ length fp;
              e = exponent r;
              x = (if e < 0 then m / 10 ^ nat (- e) else m * 10 ^ nat e)
          in if ip = [] \<and> fp = [] then 0
             else if s1 \<noteq> [] \<and> hd s1 = 45 then - x else x)"

text \<open>\<^verbatim>\<open>CAST(v AS REAL)\<close>: null stays null, and no value raises an error.\<close>

definition cast_real :: "cell \<Rightarrow> cell" where
  "cast_real v =
     (case v of
        SqlNull \<Rightarrow> SqlNull
      | SqlInt i \<Rightarrow> SqlReal (real_of_int i)
      | SqlReal x \<Rightarrow> SqlReal x
      | SqlText s \<Rightarrow> SqlReal (sqlite_atof s))"

text \<open>\<^verbatim>\<open>substr(v, 1, 19)\<close> on a text or null value.\<close>

definition substr_19 :: "cell \<Rightarrow> cell" where
  "substr_19 v = (case v of SqlText s \<Rightarrow> SqlText (take 19 s) | _ \<Rightarrow> v)"

text \<open>
  The row of \<^verbatim>\<open>records_norm\<close> for a row of \<^verbatim>\<open>records\<close>: its ten columns, then
  \<^verbatim>\<open>source_name_norm\<close> (from the left join with the alias table, keyed by
  \<^verbatim>\<open>raw_source\<close>), \<^verbatim>\<open>value_num\<close>, \<^verbatim>\<open>start_dt\<close> and \<^verbatim>\<open>end_dt\<close>.
\<close>

definition records_norm :: "(cell \<times> cell) list \<Rightarrow> cell list \<Rightarrow> cell list" where
  "records_norm source_aliases r =
     r @ [(if r ! 4 = SqlNull then SqlNull
           else case map_of source_aliases (r ! 4) of None \<Rightarrow> SqlNull | Some n \<Rightarrow> n),
          cast_real (r ! 3),
          substr_19 (r ! 8),
          substr_19 (r ! 9)]"

definition value_num :: "cell list \<Rightarrow> cell" where
  "value_num v = v ! 11"

subsection \<open>Notions of the specification and of the proofs\<close>

text \<open>
  The relation "differ only in apostrophe glyph or whitespace width", following the
  wording of the specification: the least equivalence that identifies the straight
  apostrophe U+0027 with the curly U+2018 and U+2019, one whitespace character with
  another (in particular U+00A0 with U+0020), a run of whitespace with a single
  whitespace character, and a string with the same string carrying leading or trailing
  whitespace.
\<close>

definition apostrophe :: "nat \<Rightarrow> bool" where
  "apostrophe c \<longleftrightarrow> c = 39 \<or> c = 8216 \<or> c = 8217"

inductive glyph_variant :: "ustring \<Rightarrow> ustring \<Rightarrow> bool" where
  gv_refl: "glyph_variant s s"
| gv_sym: "glyph_variant s t \<Longrightarrow> glyph_variant t s"
| gv_trans: "glyph_variant s t \<Longrightarrow> glyph_variant t u \<Longrightarrow> glyph_variant s u"
| gv_apostrophe: "apostrophe a \<Longrightarrow> apostrophe b \<Longrightarrow> glyph_variant (s @ a # t) (s @ b # t)"
| gv_space: "is_space a \<Longrightarrow> is_space b \<Longrightarrow> glyph_variant (s @ a # t) (s @ b # t)"
| gv_run: "is_space a \<Longrightarrow> is_space b \<Longrightarrow> glyph_variant (s @ a # b # t) (s @ a # t)"
| gv_leading: "is_space a \<Longrightarrow> glyph_variant (a # s) s"
| gv_trailing: "is_space a \<Longrightarrow> glyph_variant (s @ [a]) s"

text \<open>
  Two notions used in the proofs only: the value of \<^verbatim>\<open>cleaned\<close> after the two
  replacement statements, and the strings in which every whitespace character is a single
  U+0020 between two other characters or at an end.
\<close>

definition cleaned_glyphs :: "ustring \<Rightarrow> ustring" where
  "cleaned_glyphs s = replace_char 160 32 (replace_char 8216 39 (replace_char 8217 39 s))"

fun squeezed :: "ustring \<Rightarrow> bool" where
  "squeezed [] = True"
| "squeezed [c] = (is_space c \<longrightarrow> c = 32)"
| "squeezed (c # d # cs) = ((is_space c \<longrightarrow> c = 32 \<and> \<not> is_space d) \<and> squeezed (d # cs))"

text \<open>
  The geolocated points of a sequence (both \<^verbatim>\<open>lat\<close> and \<^verbatim>\<open>lon\<close> not null), in
  file order; the great-circle legs between neighbours of a coordinate list, each the
  outcome of a call of \<^verbatim>\<open>haversine_km\<close>; and, as the specification words the
  distance rule, the legs between those neighbours of the \<^emph>\<open>file\<close> sequence that are
  both geolocated. The sum of a list of legs adds them in order to a start value, and is
  the exception of the first leg that raises. \<open>stored_distance\<close> reads off an outcome of
  \<open>route_of_file\<close> the value stored in \<^verbatim>\<open>distance_km\<close>.
\<close>

definition located :: "point list \<Rightarrow> (pyfloat \<times> pyfloat) list" where
  "located points =
     List.map_filter
       (\<lambda>(lat, lon, ele, time). case (lat, lon) of (Some la, Some lo) \<Rightarrow> Some (la, lo) | _ \<Rightarrow> None)
       points"

fun legs :: "(pyfloat \<times> pyfloat) list \<Rightarrow> (error + pyfloat) list" where
  "legs (p # q # ps) = haversine_km (fst q) (snd q) (fst p) (snd p) # legs (q # ps)"
| "legs ps = []"

fun adjacent_legs :: "point list \<Rightarrow> (error + pyfloat) list" where
  "adjacent_legs (p # q # ps) =
     (case (p, q) of
        ((Some la0, Some lo0, ele0, time0), (Some la, Some lo, ele, time)) \<Rightarrow>
          [haversine_km la lo la0 lo0]
      | _ \<Rightarrow> []) @ adjacent_legs (q # ps)"
| "adjacent_legs ps = []"

fun sum_legs :: "pyfloat \<Rightarrow> (error + pyfloat) list \<Rightarrow> error + pyfloat" where
  "sum_legs acc [] = Inr acc"
| "sum_legs acc (Inl e # ls) = Inl e"
| "sum_legs acc (Inr x # ls) = sum_legs (f_add acc x) ls"

definition stored_distance :: "error + route_row \<times> point_row list \<Rightarrow> error + pyfloat option" where
  "stored_distance r = map_sum id (\<lambda>(row, prows). distance_km row) r"

text \<open>
  For the proofs: the argument of the square root and the value of \<^verbatim>\<open>haversine_km\<close>
  at finite coordinates, as real numbers, and the legs of a list of finite coordinates.
\<close>

definition haversine_arg :: "real \<Rightarrow> real \<Rightarrow> real \<Rightarrow> real \<Rightarrow> real" where
  "haversine_arg lat1 lon1 lat2 lon2 =
     (sin ((lat2 - lat1) * (pi / 180) / 2))\<^sup>2 +
     cos (lat1 * (pi / 180)) * cos (lat2 * (pi / 180)) * (sin ((lon2 - lon1) * (pi / 180) / 2))\<^sup>2"

definition haversine_real :: "real \<Rightarrow> real \<Rightarrow> real \<Rightarrow> real \<Rightarrow> real" where
  "haversine_real lat1 lon1 lat2 lon2 =
     2 * 6371.0088 * arcsin (sqrt (haversine_arg lat1 lon1 lat2 lon2))"

fun real_of :: "pyfloat \<Rightarrow> real" where
  "real_of (Finite a) = a"
| "real_of x = 0"

fun real_legs :: "(pyfloat \<times> pyfloat) list \<Rightarrow> real list" where
  "real_legs (p # q # ps) =
     haversine_real (real_of (fst q)) (real_of (snd q)) (real_of (fst p)) (real_of (snd p)) #
     real_legs (q # ps)"
| "real_legs ps = []"

text \<open>
  A coordinate list without NaN and infinities; and the order of two stored distances:
  both runs have stored a number (not \<^verbatim>\<open>NULL\<close>), the second at least the first.
\<close>

fun is_finite :: "pyfloat \<Rightarrow> bool" where
  "is_finite (Finite a) = True"
| "is_finite x = False"

definition finite_coords :: "(pyfloat \<times> pyfloat) list \<Rightarrow> bool" where
  "finite_coords ps = list_all (\<lambda>(la, lo). is_finite la \<and> is_finite lo) ps"

definition stored_le :: "error + pyfloat option \<Rightarrow> error + pyfloat option \<Rightarrow> bool" where
  "stored_le r r' =
     (case (r, r') of
        (Inr (Some x), Inr (Some y)) \<Rightarrow> \<not> f_less y x \<and> x \<noteq> Nan \<and> y \<noteq> Nan
      | _ \<Rightarrow> False)"

text \<open>
  The directory entries the two imports consider, and, for the proofs, the entries a run
  ingests (\<open>route_selected\<close>, \<open>ecg_selected\<close>) with the rows it builds for them
  in order, the ids counting up from the first one (\<open>routes_of_files\<close>,
  \<open>ecgs_of_files\<close>); \<open>route_ok\<close> holds of a route file whose distance loop
  raises no exception.
\<close>

definition gpx_name :: "ustring \<Rightarrow> bool" where
  "gpx_name name \<longleftrightarrow> endswith (lower name) (ustr ''.gpx'')"

definition csv_name :: "ustring \<Rightarrow> bool" where
  "csv_name name \<longleftrightarrow> endswith (lower name) (ustr ''.csv'')"

definition route_selected :: "filesystem \<Rightarrow> ustring \<Rightarrow> bool \<Rightarrow> ustring set \<Rightarrow> ustring \<Rightarrow> bool" where
  "route_selected fs d skip existing name \<longleftrightarrow>
     gpx_name name \<and> \<not> (skip \<and> path_join d name \<in> existing) \<and>
     gpx_points fs (path_join d name) \<noteq> []"

definition route_ok :: "filesystem \<Rightarrow> ustring \<Rightarrow> ustring \<Rightarrow> bool" where
  "route_ok fs d name \<longleftrightarrow>
     \<not> isl (route_of_file 0 (path_join d name) (gpx_points fs (path_join d name)))"

fun routes_of_files ::
  "filesystem \<Rightarrow> ustring \<Rightarrow> int \<Rightarrow> ustring list \<Rightarrow> (route_row \<times> point_row list) list" where
  "routes_of_files fs d rid [] = []"
| "routes_of_files fs d rid (n # ns) =
     projr (route_of_file rid (path_join d n) (gpx_points fs (path_join d n))) #
     routes_of_files fs d (rid + 1) ns"

text \<open>
  For the proofs: the files a run of the route import ingests before the first one that
  raises, the number of points in a list of files, and the store after flushing the
  buffers of a loop state extended by some rows.
\<close>

definition ok_selected ::
  "filesystem \<Rightarrow> ustring \<Rightarrow> bool \<Rightarrow> ustring set \<Rightarrow> ustring list \<Rightarrow> ustring list" where
  "ok_selected fs d skip existing names =
     takeWhile (route_ok fs d) (filter (route_selected fs d skip existing) names)"

definition points_total :: "filesystem \<Rightarrow> ustring \<Rightarrow> ustring list \<Rightarrow> nat" where
  "points_total fs d ns = sum_list (map (\<lambda>n. length (gpx_points fs (path_join d n))) ns)"

definition flushed :: "route_state \<Rightarrow> (route_row \<times> point_row list) list \<Rightarrow> store" where
  "flushed st rows =
     flush_routes (rs_conn st) (rs_route_rows st @ map fst rows)
       (rs_point_rows st @ concat (map snd rows))"

definition ecg_selected ::
  "(nat \<Rightarrow> nat option) \<Rightarrow> filesystem \<Rightarrow> ustring \<Rightarrow> bool \<Rightarrow> ustring set \<Rightarrow> ustring \<Rightarrow> bool" where
  "ecg_selected dv fs d skip existing name \<longleftrightarrow>
     csv_name name \<and> \<not> (skip \<and> path_join d name \<in> existing) \<and>
     snd (parse_ecg_csv dv (csv_rows fs (path_join d name))) \<noteq> []"

fun ecgs_of_files ::
  "(nat \<Rightarrow> nat option) \<Rightarrow> filesystem \<Rightarrow> ustring \<Rightarrow> int \<Rightarrow> ustring list \<Rightarrow>
   (ecg_row \<times> sample_row list) list" where
  "ecgs_of_files dv fs d eid [] = []"
| "ecgs_of_files dv fs d eid (n # ns) =
     ecg_of_file eid (path_join d n)
       (fst (parse_ecg_csv dv (csv_rows fs (path_join d n))))
       (snd (parse_ecg_csv dv (csv_rows fs (path_join d n)))) #
     ecgs_of_files dv fs d (eid + 1) ns"

text \<open>
  For the proofs about ids: the element tag that fills a table, the counter the script
  keeps for it, the number of elements of a table's kind in an event stream, and the
  invariant of the loop (store and buffer of a table together hold the ids the store
  started with, followed by 1, 2, ... up to the counter).
\<close>

definition tag_of :: "table \<Rightarrow> ustring" where
  "tag_of t =
     (case t of
        Records \<Rightarrow> ustr ''Record''
      | Workouts \<Rightarrow> ustr ''Workout''
      | Correlations \<Rightarrow> ustr ''Correlation''
      | ActivitySummaries \<Rightarrow> ustr ''ActivitySummary''
      | ClinicalRecords \<Rightarrow> ustr ''ClinicalRecord''
      | Audiograms \<Rightarrow> ustr ''Audiogram''
      | VisionPrescriptions \<Rightarrow> ustr ''VisionPrescription''
      | RecordMetadata \<Rightarrow> ustr ''MetadataEntry'')"

definition counter :: "table \<Rightarrow> ingest_state \<Rightarrow> int" where
  "counter t st =
     (case t of
        Records \<Rightarrow> record_id st
      | Workouts \<Rightarrow> workout_id st
      | Correlations \<Rightarrow> correlation_id st
      | ActivitySummaries \<Rightarrow> activity_summary_id st
      | ClinicalRecords \<Rightarrow> clinical_record_id st
      | Audiograms \<Rightarrow> audiogram_id st
      | VisionPrescriptions \<Rightarrow> vision_id st
      | RecordMetadata \<Rightarrow> 0)"

fun ends_with_tag :: "ustring \<Rightarrow> event \<Rightarrow> bool" where
  "ends_with_tag tag (End tag' attrs) = (tag' = tag)"
| "ends_with_tag tag (Start tag') = False"

definition count_ends :: "table \<Rightarrow> event list \<Rightarrow> nat" where
  "count_ends t evs = length (filter (ends_with_tag (tag_of t)) evs)"

definition ids_inv :: "db \<Rightarrow> ingest_state \<Rightarrow> bool" where
  "ids_inv db0 st \<longleftrightarrow>
     (\<forall>t. t \<noteq> RecordMetadata \<longrightarrow>
        0 \<le> counter t st \<and>
        map hd (db_conn st t @ rows_by_table st t) = map hd (db0 t) @ map SqlInt [1..counter t st])"

section \<open>Source-name normalisation: proofs\<close>

lemma is_space_32 [simp]: "is_space 32"
  by (simp add: is_space_def)

lemma is_space_160 [simp]: "is_space 160"
  by (simp add: is_space_def)

lemma not_space_quotes [simp]: "\<not> is_space 39" "\<not> is_space 8216" "\<not> is_space 8217"
  by (simp_all add: is_space_def)

lemma replace_char_absent: "a \<notin> set s \<Longrightarrow> replace_char a b s = s"
  by (induction s) (auto simp: replace_char_def)

lemma replace_char_append [simp]:
  "replace_char a b (s @ t) = replace_char a b s @ replace_char a b t"
  by (simp add: replace_char_def)

lemma replace_char_Cons [simp]:
  "replace_char a b (c # t) = (if c = a then b else c) # replace_char a b t"
  by (simp add: replace_char_def)

lemma replace_char_Nil [simp]: "replace_char a b [] = []"
  by (simp add: replace_char_def)

lemma set_replace_char: "a \<noteq> b \<Longrightarrow> a \<notin> set (replace_char a b s)"
  by (induction s) auto

lemma set_replace_char_keeps: "c \<notin> set s \<Longrightarrow> c \<noteq> b \<Longrightarrow> c \<notin> set (replace_char a b s)"
  by (induction s) auto

lemma sub_spaces_head: "s \<noteq> [] \<Longrightarrow> \<not> is_space (hd s) \<Longrightarrow> sub_spaces s = hd s # sub_spaces (tl s)"
  by (cases s) auto

lemma dropWhile_head: "dropWhile P s = [] \<or> \<not> P (hd (dropWhile P s))"
  by (metis hd_dropWhile)

lemma sub_spaces_dropWhile: "sub_spaces (dropWhile is_space x) = dropWhile is_space (sub_spaces x)"
proof (cases "dropWhile is_space x = []")
  case True
  then show ?thesis by (cases x) (auto simp del: dropWhile_eq_Nil_conv split: if_splits)
next
  case False
  then have h: "\<not> is_space (hd (dropWhile is_space x))"
    using dropWhile_head [of is_space x] by blast
  have "dropWhile is_space (sub_spaces (dropWhile is_space x)) = sub_spaces (dropWhile is_space x)"
    using False h by (simp add: sub_spaces_head)
  then show ?thesis
    by (cases x) auto
qed

lemma set_sub_spaces: "c \<in> set (sub_spaces x) \<Longrightarrow> c = 32 \<or> (c \<in> set x \<and> \<not> is_space c)"
proof (induction x rule: sub_spaces.induct)
  case 1
  then show ?case by simp
next
  case (2 d ds)
  then show ?case
    by (auto split: if_splits dest: set_dropWhileD)
qed

lemma squeezed_sub_spaces: "squeezed (sub_spaces x)"
proof (induction x rule: sub_spaces.induct)
  case 1
  then show ?case by simp
next
  case (2 c cs)
  show ?case
  proof (cases "is_space c")
    case True
    let ?d = "dropWhile is_space cs"
    have ih: "squeezed (sub_spaces ?d)" using 2 True by simp
    show ?thesis
    proof (cases "?d = []")
      case True
      with \<open>is_space c\<close> show ?thesis by (simp del: dropWhile_eq_Nil_conv)
    next
      case False
      then have "\<not> is_space (hd ?d)" using dropWhile_head [of is_space cs] by blast
      then have "sub_spaces ?d = hd ?d # sub_spaces (tl ?d)"
        using False by (simp add: sub_spaces_head)
      with ih \<open>is_space c\<close> \<open>\<not> is_space (hd ?d)\<close> show ?thesis by simp
    qed
  next
    case False
    then have ih: "squeezed (sub_spaces cs)" using 2 by simp
    then show ?thesis using False
      by (cases "sub_spaces cs") auto
  qed
qed

lemma squeezed_fixpoint: "squeezed y \<Longrightarrow> sub_spaces y = y"
  by (induction y rule: squeezed.induct) auto

lemma squeezed_tl: "squeezed (c # cs) \<Longrightarrow> squeezed cs"
  by (cases cs) auto

lemma squeezed_dropWhile: "squeezed y \<Longrightarrow> squeezed (dropWhile P y)"
  by (induction y) (auto dest: squeezed_tl)

lemma squeezed_take: "squeezed y \<Longrightarrow> squeezed (take n y)"
proof (induction y arbitrary: n rule: squeezed.induct)
  case 1
  then show ?case by simp
next
  case (2 c)
  then show ?case by (cases n) auto
next
  case (3 c d cs)
  show ?case
  proof (cases n)
    case 0
    then show ?thesis by simp
  next
    case (Suc m)
    have "squeezed (take m (d # cs))" using 3 by simp
    then show ?thesis using 3(2) Suc by (cases m) auto
  qed
qed

lemma rev_dropWhile_rev_take: "rev (dropWhile P (rev z)) = take (length z - length (takeWhile P (rev z))) z"
  by (simp add: dropWhile_eq_drop rev_drop)

lemma squeezed_strip: "squeezed y \<Longrightarrow> squeezed (strip y)"
  unfolding strip_def rev_dropWhile_rev_take
  by (intro squeezed_take squeezed_dropWhile)

lemma set_strip: "set (strip y) \<subseteq> set y"
proof -
  have "set (strip y) = set (dropWhile is_space (rev (dropWhile is_space y)))"
    by (simp add: strip_def)
  also have "\<dots> \<subseteq> set (rev (dropWhile is_space y))"
    by (meson set_dropWhileD subsetI)
  also have "\<dots> \<subseteq> set y"
    by (auto dest: set_dropWhileD)
  finally show ?thesis .
qed

lemma dropWhile_take_head:
  "w = [] \<or> \<not> P (hd w) \<Longrightarrow> dropWhile P (take n w) = take n w"
  by (cases w; cases n) auto

lemma strip_strip: "strip (strip y) = strip y"
proof -
  let ?w = "dropWhile is_space y"
  have a: "dropWhile is_space (strip y) = strip y"
    unfolding strip_def rev_dropWhile_rev_take
    by (rule dropWhile_take_head) (rule dropWhile_head)
  have "rev (strip y) = dropWhile is_space (rev ?w)"
    by (simp add: strip_def)
  then have b: "dropWhile is_space (rev (strip y)) = rev (strip y)"
    by simp
  show ?thesis
    using a b by (simp add: strip_def [of "strip y"])
qed

lemma normalize_string_idem:
  "normalize_source_name (normalize_source_name (Some s)) = normalize_source_name (Some s)"
proof -
  define b where "b = replace_char 160 32 (replace_char 8216 39 (replace_char 8217 39 s))"
  define n where "n = strip (sub_spaces b)"
  have n: "normalize_source_name (Some s) = Some n"
    by (simp add: normalize_source_name_def b_def n_def)
  have b1: "8217 \<notin> set b" "8216 \<notin> set b" "160 \<notin> set b"
    unfolding b_def
    by (simp_all add: set_replace_char set_replace_char_keeps)
  have "c \<in> set n \<Longrightarrow> c = 32 \<or> c \<in> set b" for c
    using set_strip [of "sub_spaces b"] set_sub_spaces [of c b] by (auto simp: n_def)
  then have n1: "8217 \<notin> set n" "8216 \<notin> set n" "160 \<notin> set n"
    using b1 by fastforce+
  have sq: "squeezed n"
    unfolding n_def by (intro squeezed_strip squeezed_sub_spaces)
  have "replace_char 160 32 (replace_char 8216 39 (replace_char 8217 39 n)) = n"
    using n1 by (simp add: replace_char_absent)
  moreover have "strip (sub_spaces n) = n"
    using sq by (simp add: squeezed_fixpoint) (simp add: n_def strip_strip)
  ultimately show ?thesis
    unfolding n by (simp add: normalize_source_name_def)
qed


lemma sub_spaces_cong_right:
  "sub_spaces x = sub_spaces y \<Longrightarrow> sub_spaces (s @ x) = sub_spaces (s @ y)"
proof (induction s rule: sub_spaces.induct)
  case 1
  then show ?case by simp
next
  case (2 c cs)
  show ?case
  proof (cases "is_space c")
    case True
    have d: "sub_spaces (dropWhile is_space x) = sub_spaces (dropWhile is_space y)"
      using 2(3) by (simp add: sub_spaces_dropWhile)
    show ?thesis
    proof (cases "\<forall>x\<in>set cs. is_space x")
      case True
      then have "dropWhile is_space (cs @ z) = dropWhile is_space z" for z
        by (simp add: dropWhile_append)
      then show ?thesis using \<open>is_space c\<close> d by simp
    next
      case False
      then have "dropWhile is_space (cs @ z) = dropWhile is_space cs @ z" for z
        by (auto simp: dropWhile_append)
      then show ?thesis using True 2(1) [OF True 2(3)] by simp
    qed
  next
    case False
    then show ?thesis using 2(2) [OF False 2(3)] by simp
  qed
qed

lemma sub_spaces_snoc:
  "is_space a \<Longrightarrow>
   sub_spaces (s @ [a]) = (if s \<noteq> [] \<and> is_space (last s) then sub_spaces s else sub_spaces s @ [32])"
proof (induction s rule: sub_spaces.induct)
  case 1
  then show ?case by simp
next
  case (2 c cs)
  show ?case
  proof (cases "is_space c")
    case sp: True
    show ?thesis
    proof (cases "\<forall>x\<in>set cs. is_space x")
      case True
      then have "dropWhile is_space (cs @ [a]) = []" "dropWhile is_space cs = []"
        using 2(3) by simp_all
      moreover have "is_space (last (c # cs))"
        using True sp by (cases "cs = []") auto
      ultimately show ?thesis using sp by (simp del: dropWhile_eq_Nil_conv)
    next
      case False
      let ?d = "dropWhile is_space cs"
      have dn: "?d \<noteq> []" using False by simp
      have app: "dropWhile is_space (cs @ [a]) = ?d @ [a]"
        using False by (auto simp: dropWhile_append)
      have "cs = takeWhile is_space cs @ ?d" by simp
      then have "last cs = last ?d" using dn by (metis last_appendR)
      moreover have "cs \<noteq> []" using False by auto
      ultimately show ?thesis
        using sp 2(1) [OF sp 2(3)] app dn by (simp del: dropWhile_eq_Nil_conv)
    qed
  next
    case False
    then show ?thesis using 2(2) [OF False 2(3)] 2(3) by (cases "cs = []") auto
  qed
qed

lemma strip_Cons_space: "is_space a \<Longrightarrow> strip (a # y) = strip y"
  by (simp add: strip_def)

lemma strip_snoc_space:
  assumes "is_space a"
  shows "strip (y @ [a]) = strip y"
proof (cases "\<forall>x\<in>set y. is_space x")
  case True
  then have "dropWhile is_space y = []" by simp
  then show ?thesis
    using assms True by (simp add: strip_def dropWhile_append del: dropWhile_eq_Nil_conv)
next
  case False
  then show ?thesis
    using assms by (auto simp: strip_def dropWhile_append)
qed

lemma strip_sub_spaces_dropWhile:
  "strip (sub_spaces (dropWhile is_space s)) = strip (sub_spaces s)"
  by (cases s) (auto simp: strip_Cons_space)

lemma cleaned_glyphs_append [simp]:
  "cleaned_glyphs (s @ t) = cleaned_glyphs s @ cleaned_glyphs t"
  by (simp add: cleaned_glyphs_def)

lemma cleaned_glyphs_space:
  "is_space a \<Longrightarrow> \<exists>a'. is_space a' \<and> cleaned_glyphs (a # t) = a' # cleaned_glyphs t"
  by (auto simp: cleaned_glyphs_def)

lemma cleaned_glyphs_apostrophe:
  "apostrophe a \<Longrightarrow> cleaned_glyphs (a # t) = 39 # cleaned_glyphs t"
  by (auto simp: cleaned_glyphs_def apostrophe_def)

lemma normalize_Some:
  "normalize_source_name (Some s) = Some (strip (sub_spaces (cleaned_glyphs s)))"
  by (simp add: normalize_source_name_def cleaned_glyphs_def)

lemma norm_space:
  assumes "is_space a" "is_space b"
  shows "normalize_source_name (Some (s @ a # t)) = normalize_source_name (Some (s @ b # t))"
proof -
  obtain a' where a': "is_space a'" "cleaned_glyphs (a # t) = a' # cleaned_glyphs t"
    using cleaned_glyphs_space [OF assms(1)] by blast
  obtain b' where b': "is_space b'" "cleaned_glyphs (b # t) = b' # cleaned_glyphs t"
    using cleaned_glyphs_space [OF assms(2)] by blast
  have "sub_spaces (cleaned_glyphs (a # t)) = sub_spaces (cleaned_glyphs (b # t))"
    using a' b' by simp
  then have "sub_spaces (cleaned_glyphs s @ cleaned_glyphs (a # t)) =
      sub_spaces (cleaned_glyphs s @ cleaned_glyphs (b # t))"
    by (rule sub_spaces_cong_right)
  then show ?thesis
    by (simp only: normalize_Some cleaned_glyphs_append)
qed
lemma norm_run:
  assumes "is_space a" "is_space b"
  shows "normalize_source_name (Some (s @ a # b # t)) = normalize_source_name (Some (s @ a # t))"
proof -
  obtain b' where b': "is_space b'" "cleaned_glyphs (b # t) = b' # cleaned_glyphs t"
    using cleaned_glyphs_space [OF assms(2)] by blast
  obtain a' where a': "is_space a'" "cleaned_glyphs (a # b # t) = a' # cleaned_glyphs (b # t)"
    using cleaned_glyphs_space [OF assms(1)] by blast
  obtain a'' where a'': "is_space a''" "cleaned_glyphs (a # t) = a'' # cleaned_glyphs t"
    using cleaned_glyphs_space [OF assms(1)] by blast
  have "sub_spaces (cleaned_glyphs (a # b # t)) = sub_spaces (cleaned_glyphs (a # t))"
    unfolding a' a'' b' using a'(1) a''(1) b'(1) by simp
  then have "sub_spaces (cleaned_glyphs s @ cleaned_glyphs (a # b # t)) =
      sub_spaces (cleaned_glyphs s @ cleaned_glyphs (a # t))"
    by (rule sub_spaces_cong_right)
  then show ?thesis
    by (simp only: normalize_Some cleaned_glyphs_append)
qed

lemma norm_leading:
  assumes "is_space a"
  shows "normalize_source_name (Some (a # s)) = normalize_source_name (Some s)"
proof -
  obtain a' where a': "is_space a'" "cleaned_glyphs (a # s) = a' # cleaned_glyphs s"
    using cleaned_glyphs_space [OF assms] by blast
  have "strip (sub_spaces (a' # cleaned_glyphs s)) = strip (sub_spaces (cleaned_glyphs s))"
    using a'(1) by (simp add: strip_Cons_space strip_sub_spaces_dropWhile)
  then show ?thesis
    by (simp only: normalize_Some a')
qed

lemma norm_trailing:
  assumes "is_space a"
  shows "normalize_source_name (Some (s @ [a])) = normalize_source_name (Some s)"
proof -
  obtain a' where a': "is_space a'" "cleaned_glyphs [a] = [a']"
    using cleaned_glyphs_space [OF assms, of "[]"] by (auto simp: cleaned_glyphs_def)
  have "strip (sub_spaces (cleaned_glyphs s @ [a'])) = strip (sub_spaces (cleaned_glyphs s))"
    using a'(1) by (simp add: sub_spaces_snoc strip_snoc_space)
  then show ?thesis
    by (simp only: normalize_Some cleaned_glyphs_append a')
qed

lemma normalize_glyph_variant:
  "glyph_variant s t \<Longrightarrow> normalize_source_name (Some s) = normalize_source_name (Some t)"
proof (induction rule: glyph_variant.induct)
  case (gv_apostrophe a b s t)
  then show ?case
    by (simp add: normalize_Some cleaned_glyphs_apostrophe)
next
  case (gv_space a b s t)
  then show ?case by (rule norm_space)
next
  case (gv_run a b s t)
  then show ?case by (rule norm_run)
next
  case (gv_leading a s)
  then show ?case by (rule norm_leading)
next
  case (gv_trailing a s)
  then show ?case by (rule norm_trailing)
qed simp_all

text \<open>
  Claim C7. Normalising a normalised source name changes nothing, and two strings that
  differ only in apostrophe glyph or whitespace width have the same normal form.
\<close>

theorem normalize_source_name_idempotent_glyph_insensitive:
  "normalize_source_name (normalize_source_name v) = normalize_source_name v \<and>
   (glyph_variant s t \<longrightarrow> normalize_source_name (Some s) = normalize_source_name (Some t))"
proof (cases v)
  case None
  then show ?thesis
    by (auto simp: normalize_source_name_def dest: normalize_glyph_variant)
next
  case (Some x)
  then show ?thesis
    using normalize_string_idem [of x] normalize_glyph_variant [of s t] by blast
qed

theorem normalize_source_name_witness:
  "glyph_variant [32, 79, 8217, 115, 160, 160, 97] [79, 39, 115, 32, 97] \<and>
   normalize_source_name (Some [32, 79, 8217, 115, 160, 160, 97]) =
     normalize_source_name (Some [79, 39, 115, 32, 97]) \<and>
   normalize_source_name (Some [79, 39, 115, 32, 97]) = Some [79, 39, 115, 32, 97]"
proof -
  have 1: "glyph_variant [32, 79, 8217, 115, 160, 160, 97] [79, 8217, 115, 160, 160, 97]"
    by (rule gv_leading) simp
  have 2: "glyph_variant [79, 8217, 115, 160, 160, 97] [79, 39, 115, 160, 160, 97]"
    using gv_apostrophe [of 8217 39 "[79]" "[115, 160, 160, 97]"]
    by (simp add: apostrophe_def)
  have 3: "glyph_variant [79, 39, 115, 160, 160, 97] [79, 39, 115, 160, 97]"
    using gv_run [of 160 160 "[79, 39, 115]" "[97]"] by simp
  have 4: "glyph_variant [79, 39, 115, 160, 97] [79, 39, 115, 32, 97]"
    using gv_space [of 160 32 "[79, 39, 115]" "[97]"] by simp
  have g: "glyph_variant [32, 79, 8217, 115, 160, 160, 97] [79, 39, 115, 32, 97]"
    using 1 2 3 4 by (blast intro: gv_trans)
  have e: "normalize_source_name (Some [79, 39, 115, 32, 97]) = Some [79, 39, 115, 32, 97]"
    by (simp add: normalize_source_name_def strip_def is_space_def)
  show ?thesis
    using g e
      normalize_source_name_idempotent_glyph_insensitive
        [of "Some [79, 39, 115, 32, 97]" "[32, 79, 8217, 115, 160, 160, 97]" "[79, 39, 115, 32, 97]"]
    by simp
qed

section \<open>Route distance: proofs\<close>

lemma bind_err_simps [simp]:
  "bind_err (Inl e) f = Inl e"
  "bind_err (Inr v) f = f v"
  by (simp_all add: bind_err_def)

lemma located_Nil [simp]: "located [] = []"
  by (simp add: located_def map_filter_simps)

lemma located_Cons:
  "located ((lat, lon, ele, time) # ps) =
     (case (lat, lon) of (Some la, Some lo) \<Rightarrow> (la, lo) # located ps | _ \<Rightarrow> located ps)"
  by (simp add: located_def map_filter_simps split: option.splits)

lemma located_append: "located (ps @ qs) = located ps @ located qs"
  by (simp add: located_def map_filter_def)

lemma points_loop_distance:
  "map_sum id (\<lambda>r. fst (snd r)) (points_loop rid idx ps last_point d rows) =
     sum_legs d (legs ((case last_point of None \<Rightarrow> [] | Some l \<Rightarrow> [l]) @ located ps))"
proof (induction ps arbitrary: idx last_point d rows)
  case Nil
  then show ?case by (simp split: option.splits)
next
  case (Cons p ps)
  obtain lat lon ele time where p: "p = (lat, lon, ele, time)"
    by (cases p) auto
  show ?case
  proof (cases "\<exists>la lo. lat = Some la \<and> lon = Some lo")
    case False
    then show ?thesis
      using Cons.IH unfolding p by (cases lat; cases lon) (simp_all add: located_Cons)
  next
    case True
    then obtain la lo where l: "lat = Some la" "lon = Some lo"
      by blast
    show ?thesis
    proof (cases last_point)
      case None
      then show ?thesis
        using Cons.IH unfolding p l by (simp add: located_Cons)
    next
      case (Some q)
      obtain la0 lo0 where q: "q = (la0, lo0)"
        by (cases q) auto
      show ?thesis
        using Cons.IH unfolding p l Some q
        by (cases "haversine_km la lo la0 lo0") (simp_all add: located_Cons)
    qed
  qed
qed

lemma route_of_file_distance:
  "stored_distance (route_of_file rid path ps) =
     map_sum id sql_real (sum_legs (Finite 0) (legs (located ps)))"
proof -
  have e: "map_sum id (\<lambda>r. fst (snd r)) (points_loop rid 0 ps None (Finite 0) []) =
      sum_legs (Finite 0) (legs (located ps))"
    using points_loop_distance [of rid 0 ps None "Finite 0" "[]"] by simp
  show ?thesis
  proof (cases "points_loop rid 0 ps None (Finite 0) []")
    case (Inl x)
    then have "sum_legs (Finite 0) (legs (located ps)) = Inl x"
      using e by simp
    then show ?thesis
      by (simp add: stored_distance_def route_of_file_def Let_def Inl)
  next
    case (Inr r)
    obtain l d rows where r: "r = (l, d, rows)"
      by (cases r) auto
    have "sum_legs (Finite 0) (legs (located ps)) = Inr d"
      using e by (simp add: Inr r)
    then show ?thesis
      by (simp add: stored_distance_def route_of_file_def Let_def Inr r)
  qed
qed

lemma route_of_file_raises:
  "isl (route_of_file rid path ps) = isl (sum_legs (Finite 0) (legs (located ps)))"
proof -
  have "isl (stored_distance (route_of_file rid path ps)) = isl (route_of_file rid path ps)"
    by (cases "route_of_file rid path ps") (simp_all add: stored_distance_def)
  moreover have "isl (map_sum id sql_real (sum_legs (Finite 0) (legs (located ps)))) =
      isl (sum_legs (Finite 0) (legs (located ps)))"
    by (cases "sum_legs (Finite 0) (legs (located ps))") simp_all
  ultimately show ?thesis
    by (simp add: route_of_file_distance)
qed

lemma sin_half_squared: "(sin (x / 2))\<^sup>2 = (1 - cos x) / (2::real)"
  using cos_double_sin [of "x / 2"] by simp

lemma half_range:
  fixes c :: real
  assumes "- 1 \<le> c" "c \<le> 1"
  shows "0 \<le> (1 - c) / 2" "(1 - c) / 2 \<le> 1" "0 \<le> (1 + c) / 2" "(1 + c) / 2 \<le> 1"
  using assms by auto

lemma convex_unit:
  fixes u a0 a1 :: real
  assumes "0 \<le> u" "u \<le> 1" "0 \<le> a0" "a0 \<le> 1" "0 \<le> a1" "a1 \<le> 1"
  shows "0 \<le> (1 - u) * a0 + u * a1" "(1 - u) * a0 + u * a1 \<le> 1"
proof -
  show "0 \<le> (1 - u) * a0 + u * a1"
    using assms by (intro add_nonneg_nonneg mult_nonneg_nonneg) auto
  have "(1 - u) * a0 \<le> (1 - u) * 1" "u * a1 \<le> u * 1"
    using assms by (intro mult_left_mono; simp)+
  then show "(1 - u) * a0 + u * a1 \<le> 1" by simp
qed

lemma haversine_arg_range:
  "0 \<le> haversine_arg lat1 lon1 lat2 lon2 \<and> haversine_arg lat1 lon1 lat2 lon2 \<le> 1"
proof -
  define p1 where "p1 = lat1 * (pi / 180)"
  define p2 where "p2 = lat2 * (pi / 180)"
  define u where "u = (sin ((lon2 - lon1) * (pi / 180) / 2))\<^sup>2"
  define a0 where "a0 = (1 - cos (p2 - p1)) / 2"
  define a1 where "a1 = (1 + cos (p1 + p2)) / 2"
  have dphi: "(lat2 - lat1) * (pi / 180) = p2 - p1"
    by (simp add: p1_def p2_def left_diff_distrib)
  have arg: "haversine_arg lat1 lon1 lat2 lon2 = a0 + cos p1 * cos p2 * u"
    unfolding haversine_arg_def dphi sin_half_squared a0_def u_def p1_def p2_def by simp
  have a1: "a1 = a0 + cos p1 * cos p2"
    by (simp add: a0_def a1_def cos_add cos_diff field_simps)
  have conv: "a0 + cos p1 * cos p2 * u = (1 - u) * a0 + u * a1"
    by (simp add: a1 algebra_simps)
  have u: "0 \<le> u" "u \<le> 1"
    by (simp_all add: u_def abs_square_le_1 )
  have c0: "cos (p2 - p1) \<le> 1" "- 1 \<le> cos (p2 - p1)"
    by simp_all
  have r0: "0 \<le> a0" "a0 \<le> 1"
    unfolding a0_def by (rule half_range [OF c0(2) c0(1)])+
  have c1: "cos (p1 + p2) \<le> 1" "- 1 \<le> cos (p1 + p2)"
    by simp_all
  have r1: "0 \<le> a1" "a1 \<le> 1"
    unfolding a1_def by (rule half_range [OF c1(2) c1(1)])+
  show ?thesis
    unfolding arg conv using convex_unit [OF u r0 r1] by simp
qed

lemma haversine_real_nonneg: "0 \<le> haversine_real lat1 lon1 lat2 lon2"
proof -
  let ?a = "haversine_arg lat1 lon1 lat2 lon2"
  have "0 \<le> sqrt ?a" "sqrt ?a \<le> 1"
    using haversine_arg_range [of lat1 lon1 lat2 lon2] by (simp_all add: real_le_lsqrt)
  then have "0 \<le> arcsin (sqrt ?a)"
    by (intro arcsin_nonneg) simp
  then show ?thesis
    by (simp add: haversine_real_def)
qed

text \<open>At finite coordinates no call into \<^verbatim>\<open>math\<close> raises, and the result is finite.\<close>

lemma finite_arith:
  "radians (Finite x) = Finite (x * (pi / 180))"
  "f_sub (Finite x) (Finite y) = Finite (x - y)"
  "f_div_const (Finite x) 2 = Finite (x / 2)"
  "f_add (f_sq (Finite s1)) (f_mul (f_mul (Finite c1) (Finite c2)) (f_sq (Finite s2))) =
     Finite (s1\<^sup>2 + c1 * c2 * s2\<^sup>2)"
  by (simp_all add: radians_def f_sub_def f_sq_def power2_eq_square)

lemma haversine_km_finite:
  "haversine_km (Finite lat1) (Finite lon1) (Finite lat2) (Finite lon2) =
     Inr (Finite (haversine_real lat1 lon1 lat2 lon2))"
proof -
  let ?a = "haversine_arg lat1 lon1 lat2 lon2"
  have r: "0 \<le> ?a" "?a \<le> 1"
    using haversine_arg_range [of lat1 lon1 lat2 lon2] by simp_all
  have q: "py_sqrt (Finite ?a) = Inr (Finite (sqrt ?a))"
    using r by simp
  have "0 \<le> sqrt ?a" "sqrt ?a \<le> 1"
    using r by (simp_all add: real_le_lsqrt)
  then have "- 1 \<le> sqrt ?a \<and> sqrt ?a \<le> 1"
    by linarith
  then have t: "py_asin (Finite (sqrt ?a)) = Inr (Finite (arcsin (sqrt ?a)))"
    by simp
  have "haversine_km (Finite lat1) (Finite lon1) (Finite lat2) (Finite lon2) =
      Inr (f_mul (f_mul (Finite 2) (Finite 6371.0088)) (Finite (arcsin (sqrt ?a))))"
    unfolding haversine_km_def Let_def
    by (simp only: finite_arith py_sin.simps py_cos.simps bind_err_simps
        haversine_arg_def [symmetric] q t)
  then show ?thesis
    by (simp add: haversine_real_def)
qed

lemma haversine_half_turn:
  "haversine_km (Finite 0) (Finite 180) (Finite 0) (Finite 0) = Inr (Finite (6371.0088 * pi))"
  by (simp add: haversine_km_finite haversine_real_def haversine_arg_def)

text \<open>A NaN coordinate makes the leg NaN; an infinite latitude makes the call raise.\<close>

lemma haversine_km_nan:
  "haversine_km Nan (Finite lon1) (Finite lat2) (Finite lon2) = Inr Nan"
  by (simp add: haversine_km_def Let_def radians_def f_sub_def f_sq_def)

lemma haversine_km_inf:
  "haversine_km PosInf (Finite lon1) (Finite lat2) (Finite lon2) = Inl ValueError"
  by (simp add: haversine_km_def Let_def radians_def f_sub_def f_sq_def)

text \<open>
  Claim C1, as stated, fails: the loop keeps \<^verbatim>\<open>last_point\<close> across a point without
  coordinates, so the next geolocated point is measured against the last geolocated one
  before the gap. For the file with the points (0, 0), (null, 0), (0, 180) no neighbouring
  pair is geolocated, yet the stored distance is half the circumference.
\<close>

theorem stored_distance_bridges_gap_counterexample:
  "stored_distance (route_of_file 1 (ustr ''routes/a.gpx'')
      [(Some (Finite 0), Some (Finite 0), None, None), (None, Some (Finite 0), None, None),
       (Some (Finite 0), Some (Finite 180), None, None)])
   \<noteq> map_sum id sql_real (sum_legs (Finite 0) (adjacent_legs
      [(Some (Finite 0), Some (Finite 0), None, None), (None, Some (Finite 0), None, None),
       (Some (Finite 0), Some (Finite 180), None, None)]))"
  by (simp add: route_of_file_distance located_Cons haversine_half_turn sql_real_def)

text \<open>
  Claim C1, amended. The stored \<^verbatim>\<open>distance_km\<close> of a route file is the sum of the
  great-circle distances between neighbours in the sequence of its geolocated points:
  a point without a coordinate adds nothing and does not reset the accumulation, and the
  geolocated points on either side of it are joined by a leg. This holds of every point
  sequence: a leg that raises \<^verbatim>\<open>ValueError\<close> (an infinite coordinate) ends the import
  with that exception, and a sum that is NaN is stored as \<^verbatim>\<open>NULL\<close>.
\<close>

theorem stored_distance_sums_located_legs:
  "stored_distance (route_of_file rid path points) =
     map_sum id sql_real (sum_legs (Finite 0) (legs (located points)))"
  by (rule route_of_file_distance)

text \<open>Over finite legs the sum is the sum of real numbers.\<close>

lemma sum_legs_finite:
  "sum_legs (Finite a) (map (\<lambda>x. Inr (Finite x)) xs) = Inr (Finite (a + sum_list xs))"
  by (induction xs arbitrary: a) (simp_all add: add.assoc)

lemma legs_snoc:
  "legs (ps @ [q]) =
     (if ps = [] then []
      else legs ps @ [haversine_km (fst q) (snd q) (fst (last ps)) (snd (last ps))])"
  by (induction ps rule: legs.induct) auto

lemma sum_legs_append:
  "sum_legs a (ls @ ms) = bind_err (sum_legs a ls) (\<lambda>s. sum_legs s ms)"
  by (induction a ls rule: sum_legs.induct) simp_all

lemma finite_coords_simps [simp]:
  "finite_coords [] = True"
  "finite_coords ((la, lo) # ps) = (is_finite la \<and> is_finite lo \<and> finite_coords ps)"
  "finite_coords (ps @ qs) = (finite_coords ps \<and> finite_coords qs)"
  by (simp_all add: finite_coords_def)

lemma is_finite_iff: "is_finite x \<longleftrightarrow> (\<exists>a. x = Finite a)"
  by (cases x) simp_all

lemma sum_legs_finite_coords:
  "finite_coords ps \<Longrightarrow> \<exists>s. sum_legs (Finite a) (legs ps) = Inr (Finite s) \<and> a \<le> s"
proof (induction ps arbitrary: a rule: legs.induct)
  case (1 p q ps)
  obtain la lo la' lo' where c: "p = (Finite la, Finite lo)" "q = (Finite la', Finite lo')"
    and f: "finite_coords (q # ps)"
    using "1.prems" by (cases p; cases q) (auto simp: is_finite_iff)
  obtain s where s: "sum_legs (Finite (a + haversine_real la' lo' la lo)) (legs (q # ps)) =
      Inr (Finite s)" "a + haversine_real la' lo' la lo \<le> s"
    using "1.IH" [OF f] by blast
  have "a \<le> s"
    using s(2) haversine_real_nonneg [of la' lo' la lo] by simp
  then show ?case
    using s(1) by (simp add: c haversine_km_finite)
qed simp_all

lemma last_finite_coords:
  "finite_coords ps \<Longrightarrow> ps \<noteq> [] \<Longrightarrow> \<exists>a b. last ps = (Finite a, Finite b)"
proof -
  assume "finite_coords ps" "ps \<noteq> []"
  then have "finite_coords [last ps]"
    using finite_coords_simps(3) [of "butlast ps" "[last ps]"] by simp
  then show ?thesis
    by (cases "last ps") (auto simp: is_finite_iff)
qed

text \<open>
  At finite coordinates the stored distance is the sum of the real great-circle
  distances.
\<close>

lemma legs_finite:
  "finite_coords ps \<Longrightarrow> legs ps = map (\<lambda>x. Inr (Finite x)) (real_legs ps)"
proof (induction ps rule: legs.induct)
  case (1 p q ps)
  obtain la lo la' lo' where c: "p = (Finite la, Finite lo)" "q = (Finite la', Finite lo')"
    and f: "finite_coords (q # ps)"
    using "1.prems" by (cases p; cases q) (auto simp: is_finite_iff)
  show ?case
    using "1.IH" [OF f] by (simp add: c haversine_km_finite)
qed simp_all

lemma stored_distance_finite:
  assumes "finite_coords (located ps)"
  shows "stored_distance (route_of_file rid path ps) =
     Inr (Some (Finite (sum_list (real_legs (located ps)))))"
  using sum_legs_finite [of 0 "real_legs (located ps)"]
  by (simp add: route_of_file_distance legs_finite [OF assms] sql_real_def)




section \<open>ECG parsing: proofs\<close>

lemma number_re_match_Nil [simp]: "\<not> number_re_match dv []"
  by (simp add: number_re_match_def drop_sign_def)

lemma parse_ecg_csv_snoc:
  "parse_ecg_csv dv (rows @ [row]) = ecg_row_step dv (parse_ecg_csv dv rows) row"
  by (simp add: parse_ecg_csv_def)

text \<open>
  Claim C9. Each row of an ECG file is classified by its shape: a row of one field whose
  (whitespace-trimmed) content matches the number pattern appends that number to the
  samples; a row of two or more fields sets the metadata entry of its (trimmed) first
  field to its (trimmed) second field, whatever follows; a row of one field that is not a
  number changes neither.
\<close>

theorem ecg_rows_classified_by_shape:
  "(row = [f] \<and> number_re_match dv (strip f) \<longrightarrow>
      parse_ecg_csv dv (rows @ [row]) =
        (fst (parse_ecg_csv dv rows), snd (parse_ecg_csv dv rows) @ [py_float dv (strip f)])) \<and>
   (2 \<le> length row \<longrightarrow>
      parse_ecg_csv dv (rows @ [row]) =
        (AList.update (strip (row ! 0)) (strip (row ! 1)) (fst (parse_ecg_csv dv rows)),
         snd (parse_ecg_csv dv rows))) \<and>
   (row = [f] \<and> \<not> number_re_match dv (strip f) \<longrightarrow>
      parse_ecg_csv dv (rows @ [row]) = parse_ecg_csv dv rows)"
proof -
  obtain m s where ms: "parse_ecg_csv dv rows = (m, s)"
    by (cases "parse_ecg_csv dv rows") auto
  have "row = [f] \<Longrightarrow> number_re_match dv (strip f) \<Longrightarrow>
      ecg_row_step dv (m, s) row = (m, s @ [py_float dv (strip f)])"
    by (auto simp: ecg_row_step_def Let_def)
  moreover have "2 \<le> length row \<Longrightarrow>
      ecg_row_step dv (m, s) row = (AList.update (strip (row ! 0)) (strip (row ! 1)) m, s)"
    by (auto simp: ecg_row_step_def Let_def)
  moreover have "row = [f] \<Longrightarrow> \<not> number_re_match dv (strip f) \<Longrightarrow>
      ecg_row_step dv (m, s) row = (m, s)"
    by (auto simp: ecg_row_step_def Let_def)
  ultimately show ?thesis
    by (simp add: parse_ecg_csv_snoc ms)
qed

theorem ecg_rows_classified_witness:
  "number_re_match ascii_digit (strip (ustr '' -12.5 '')) \<and>
   parse_ecg_csv ascii_digit ([[ustr ''Lead'', ustr '' I '', ustr ''x'']] @ [[ustr '' -12.5 '']]) =
     ([(ustr ''Lead'', ustr ''I'')], [- 12.5]) \<and>
   2 \<le> length [ustr ''Lead'', ustr '' I '', ustr ''x''] \<and>
   parse_ecg_csv ascii_digit ([] @ [[ustr ''Lead'', ustr '' I '', ustr ''x'']]) =
     ([(ustr ''Lead'', ustr ''I'')], []) \<and>
   \<not> number_re_match ascii_digit (strip (ustr ''1e5'')) \<and>
   parse_ecg_csv ascii_digit ([[ustr ''Lead'', ustr '' I '', ustr ''x'']] @ [[ustr ''1e5'']]) =
     ([(ustr ''Lead'', ustr ''I'')], [])"
proof -
  have p: "parse_ecg_csv ascii_digit [] = ([], [])"
    by (simp add: parse_ecg_csv_def)
  have n1: "number_re_match ascii_digit (strip (ustr '' -12.5 ''))"
    by (simp add: ustr_def strip_def is_space_def number_re_match_def drop_sign_def
        at_end_def ascii_digit_def)
  have n2: "\<not> number_re_match ascii_digit (strip (ustr ''1e5''))"
    by (simp add: ustr_def strip_def is_space_def number_re_match_def drop_sign_def
        at_end_def ascii_digit_def)
  have v: "py_float ascii_digit (strip (ustr '' -12.5 '')) = - 12.5"
    by (simp add: ustr_def strip_def is_space_def drop_sign_def ascii_digit_def py_float_def
        digits_value_def)
  have s: "strip (ustr ''Lead'') = ustr ''Lead''" "strip (ustr '' I '') = ustr ''I''"
    by (simp_all add: ustr_def strip_def is_space_def)
  have a: "parse_ecg_csv ascii_digit ([] @ [[ustr ''Lead'', ustr '' I '', ustr ''x'']]) =
     ([(ustr ''Lead'', ustr ''I'')], [])"
    using ecg_rows_classified_by_shape
      [of "[ustr ''Lead'', ustr '' I '', ustr ''x'']" "[]" ascii_digit "[]"]
    by (simp add: p s)
  then have a': "parse_ecg_csv ascii_digit [[ustr ''Lead'', ustr '' I '', ustr ''x'']] =
     ([(ustr ''Lead'', ustr ''I'')], [])"
    by simp
  have b: "parse_ecg_csv ascii_digit
      ([[ustr ''Lead'', ustr '' I '', ustr ''x'']] @ [[ustr '' -12.5 '']]) =
     ([(ustr ''Lead'', ustr ''I'')], [- 12.5])"
    using ecg_rows_classified_by_shape
      [of "[ustr '' -12.5 '']" "ustr '' -12.5 ''" ascii_digit
          "[[ustr ''Lead'', ustr '' I '', ustr ''x'']]"] n1
    by (simp only: a' v fst_conv snd_conv append_Nil simp_thms)
  have c: "parse_ecg_csv ascii_digit
      ([[ustr ''Lead'', ustr '' I '', ustr ''x'']] @ [[ustr ''1e5'']]) =
     ([(ustr ''Lead'', ustr ''I'')], [])"
    using ecg_rows_classified_by_shape
      [of "[ustr ''1e5'']" "ustr ''1e5''" ascii_digit
          "[[ustr ''Lead'', ustr '' I '', ustr ''x'']]"] n2
    by (simp only: a' simp_thms)
  show ?thesis
    using n1 n2 a b c by simp
qed

section \<open>The import loops without their buffers\<close>

lemma flush_routes_flush_routes:
  "flush_routes (flush_routes c a b) a' b' = flush_routes c (a @ a') (b @ b')"
  by (simp add: flush_routes_def)

lemma flush_routes_empty [simp]: "flush_routes c [] [] = c"
  by (simp add: flush_routes_def)

lemma flushed_Nil: "flushed st [] = flush_routes (rs_conn st) (rs_route_rows st) (rs_point_rows st)"
  by (simp add: flushed_def)

lemma flushed_flush:
  "flushed st rows = flush_routes (flushed st []) (map fst rows) (concat (map snd rows))"
  by (simp add: flushed_def flush_routes_flush_routes)

lemma flushed_Cons: "flushed st1 [] = flushed st [rw] \<Longrightarrow> flushed st1 rows = flushed st (rw # rows)"
proof -
  assume a: "flushed st1 [] = flushed st [rw]"
  have "flushed st1 rows = flush_routes (flushed st [rw]) (map fst rows) (concat (map snd rows))"
    using flushed_flush [of st1 rows] a by simp
  then show ?thesis
    by (simp add: flushed_def flush_routes_flush_routes)
qed

lemma route_of_file_Inr:
  assumes "route_of_file rid path ps = Inr rw"
  shows "route_id (fst rw) = rid" "route_file_path (fst rw) = path"
proof -
  obtain r where r: "points_loop rid 0 ps None (Finite 0) [] = Inr r"
    using assms by (cases "points_loop rid 0 ps None (Finite 0) []")
      (simp_all add: route_of_file_def Let_def)
  obtain l d rows where "r = (l, d, rows)"
    by (cases r) auto
  then have e: "fst rw = \<lparr>route_id = rid, route_file_path = path,
      start_time = snd (snd (snd (hd ps))), end_time = snd (snd (snd (last ps))),
      point_count = length ps, distance_km = sql_real d,
      min_lat = some_min (List.map_filter (\<lambda>(lat, lon, ele, time). lat) ps),
      max_lat = some_max (List.map_filter (\<lambda>(lat, lon, ele, time). lat) ps),
      min_lon = some_min (List.map_filter (\<lambda>(lat, lon, ele, time). lon) ps),
      max_lon = some_max (List.map_filter (\<lambda>(lat, lon, ele, time). lon) ps)\<rparr>"
    using assms r by (auto simp: route_of_file_def Let_def)
  show "route_id (fst rw) = rid" "route_file_path (fst rw) = path"
    unfolding e by simp_all
qed

lemma points_loop_rows:
  "points_loop rid idx ps last_point d rows = Inr (l, d', rows') \<Longrightarrow>
   length rows' = length rows + length ps"
proof (induction ps arbitrary: idx last_point d rows)
  case Nil
  then show ?case by simp
next
  case (Cons p ps)
  obtain lat lon ele time where p: "p = (lat, lon, ele, time)"
    by (cases p) auto
  let ?rows = "rows @ [(rid, idx, sql_real_opt lat, sql_real_opt lon, sql_real_opt ele, time)]"
  have "\<exists>lp dk. points_loop rid (Suc idx) ps lp dk ?rows = Inr (l, d', rows')"
  proof (cases "\<exists>la lo. lat = Some la \<and> lon = Some lo")
    case False
    then show ?thesis
      using Cons.prems unfolding p by (cases lat; cases lon) auto
  next
    case True
    then obtain la lo where ll: "lat = Some la" "lon = Some lo"
      by blast
    show ?thesis
    proof (cases last_point)
      case None
      then show ?thesis
        using Cons.prems unfolding p ll by auto
    next
      case (Some q)
      obtain la0 lo0 where q: "q = (la0, lo0)"
        by (cases q) auto
      show ?thesis
        using Cons.prems unfolding p ll Some q
        by (cases "haversine_km la lo la0 lo0") auto
    qed
  qed
  then obtain lp dk where "points_loop rid (Suc idx) ps lp dk ?rows = Inr (l, d', rows')"
    by blast
  then have "length rows' = length ?rows + length ps"
    by (rule Cons.IH)
  then show ?case
    by simp
qed

lemma route_of_file_rows:
  assumes "route_of_file rid path ps = Inr rw"
  shows "length (snd rw) = length ps"
proof -
  obtain r where r: "points_loop rid 0 ps None (Finite 0) [] = Inr r"
    using assms by (cases "points_loop rid 0 ps None (Finite 0) []")
      (simp_all add: route_of_file_def Let_def)
  obtain l d rows where lr: "r = (l, d, rows)"
    by (cases r) auto
  have "snd rw = rows"
    using assms r lr by (auto simp: route_of_file_def Let_def)
  then show ?thesis
    using points_loop_rows [of rid 0 ps None "Finite 0" "[]" l d rows] r lr by simp
qed

lemma route_ok_iff:
  "route_ok fs d n \<longleftrightarrow>
   \<not> isl (route_of_file rid (path_join d n) (gpx_points fs (path_join d n)))"
  by (simp add: route_ok_def route_of_file_raises)

lemma route_file_step_skip:
  "\<not> route_selected fs d skip existing name \<Longrightarrow>
   route_file_step fs d skip existing st name = Inr st"
  by (auto simp: route_file_step_def route_selected_def gpx_name_def Let_def)

lemma route_file_step_raises:
  assumes "route_selected fs d skip existing name" "\<not> route_ok fs d name"
  shows "\<exists>e. route_file_step fs d skip existing st name = Inl e"
proof -
  have g: "endswith (lower name) (ustr ''.gpx'')" "\<not> (skip \<and> path_join d name \<in> existing)"
    "gpx_points fs (path_join d name) \<noteq> []"
    using assms(1) by (auto simp: route_selected_def gpx_name_def)
  obtain e where
    "route_of_file (rs_route_id st) (path_join d name) (gpx_points fs (path_join d name)) = Inl e"
    using assms(2) route_ok_iff [of fs d name "rs_route_id st"]
    by (cases "route_of_file (rs_route_id st) (path_join d name) (gpx_points fs (path_join d name))")
      simp_all
  then show ?thesis
    using g by (auto simp: route_file_step_def Let_def)
qed

lemma route_file_step_ok:
  assumes "route_selected fs d skip existing name" "route_ok fs d name"
    and rw: "rw = projr (route_of_file (rs_route_id st) (path_join d name)
                           (gpx_points fs (path_join d name)))"
  shows "\<exists>st1. route_file_step fs d skip existing st name = Inr st1 \<and>
           flushed st1 [] = flushed st [rw] \<and>
           rs_route_id st1 = rs_route_id st + 1 \<and>
           rs_inserted st1 = rs_inserted st + 1 \<and>
           (rs_conn st1 = rs_conn st \<and>
              length (rs_point_rows st1) =
                length (rs_point_rows st) + length (gpx_points fs (path_join d name)) \<and>
              length (rs_point_rows st1) < 20000 \<or>
            rs_conn st1 = flushed st [rw] \<and> rs_point_rows st1 = [] \<and>
              20000 \<le> length (rs_point_rows st) + length (gpx_points fs (path_join d name)))"
proof -
  have g: "endswith (lower name) (ustr ''.gpx'')" "\<not> (skip \<and> path_join d name \<in> existing)"
    "gpx_points fs (path_join d name) \<noteq> []"
    using assms(1) by (auto simp: route_selected_def gpx_name_def)
  have r: "route_of_file (rs_route_id st) (path_join d name) (gpx_points fs (path_join d name)) =
      Inr (fst rw, snd rw)"
    using assms(2) route_ok_iff [of fs d name "rs_route_id st"] unfolding rw
    by (cases "route_of_file (rs_route_id st) (path_join d name) (gpx_points fs (path_join d name))")
      simp_all
  define st1 where "st1 = st\<lparr>rs_route_rows := rs_route_rows st @ [fst rw],
      rs_point_rows := rs_point_rows st @ snd rw,
      rs_route_id := rs_route_id st + 1,
      rs_inserted := rs_inserted st + 1\<rparr>"
  define st2 where "st2 = st1\<lparr>rs_conn := flush_routes (rs_conn st1) (rs_route_rows st1)
      (rs_point_rows st1), rs_route_rows := [], rs_point_rows := []\<rparr>"
  have s: "route_file_step fs d skip existing st name =
      Inr (if length (rs_point_rows st1) \<ge> 20000 then st2 else st1)"
    using g by (auto simp: route_file_step_def Let_def r st1_def st2_def case_prod_unfold)
  have len: "length (snd rw) = length (gpx_points fs (path_join d name))"
    using route_of_file_rows [OF r] by simp
  have a1: "flushed st1 [] = flushed st [rw]" "rs_route_id st1 = rs_route_id st + 1"
    "rs_inserted st1 = rs_inserted st + 1" "rs_conn st1 = rs_conn st"
    "length (rs_point_rows st1) =
       length (rs_point_rows st) + length (gpx_points fs (path_join d name))"
    by (simp_all add: st1_def flushed_def len)
  have a2: "flushed st2 [] = flushed st [rw]" "rs_route_id st2 = rs_route_id st + 1"
    "rs_inserted st2 = rs_inserted st + 1" "rs_conn st2 = flushed st [rw]"
    "rs_point_rows st2 = []"
    by (simp_all add: st2_def st1_def flushed_def)
  show ?thesis
  proof (cases "length (rs_point_rows st1) \<ge> 20000")
    case True
    then have "20000 \<le> length (rs_point_rows st) + length (gpx_points fs (path_join d name))"
      using a1(5) by simp
    then show ?thesis
      unfolding s using True a2 by simp
  next
    case False
    then show ?thesis
      unfolding s using a1 by simp
  qed
qed

lemma routes_of_files_length [simp]: "length (routes_of_files fs d rid ns) = length ns"
  by (induction ns arbitrary: rid) auto

lemma ok_selected_Nil [simp]: "ok_selected fs d skip existing [] = []"
  by (simp add: ok_selected_def)

lemma ok_selected_Cons:
  "ok_selected fs d skip existing (n # names) =
     (if route_selected fs d skip existing n
      then (if route_ok fs d n then n # ok_selected fs d skip existing names else [])
      else ok_selected fs d skip existing names)"
  by (simp add: ok_selected_def)

lemma ok_selected_all:
  "ok_selected fs d skip existing names = filter (route_selected fs d skip existing) names \<longleftrightarrow>
   (\<forall>n\<in>set (filter (route_selected fs d skip existing) names). route_ok fs d n)"
  unfolding ok_selected_def by (rule takeWhile_eq_all_conv)

lemma ok_selected_ok: "n \<in> set (ok_selected fs d skip existing names) \<Longrightarrow> route_ok fs d n"
  unfolding ok_selected_def by (rule set_takeWhileD [THEN conjunct2])

lemma ok_selected_subset:
  "set (ok_selected fs d skip existing names) \<subseteq> set (filter (route_selected fs d skip existing) names)"
  unfolding ok_selected_def using set_takeWhileD by fastforce

lemma routes_loop_view:
  "flushed (fst (routes_loop fs d skip existing st names)) [] =
     flushed st (routes_of_files fs d (rs_route_id st) (ok_selected fs d skip existing names)) \<and>
   rs_route_id (fst (routes_loop fs d skip existing st names)) =
     rs_route_id st + int (length (ok_selected fs d skip existing names)) \<and>
   rs_inserted (fst (routes_loop fs d skip existing st names)) =
     rs_inserted st + length (ok_selected fs d skip existing names) \<and>
   (snd (routes_loop fs d skip existing st names) = None \<longleftrightarrow>
      ok_selected fs d skip existing names = filter (route_selected fs d skip existing) names)"
proof (induction names arbitrary: st)
  case Nil
  then show ?case by simp
next
  case (Cons n ns)
  show ?case
  proof (cases "route_selected fs d skip existing n")
    case False
    have "routes_loop fs d skip existing st (n # ns) = routes_loop fs d skip existing st ns"
      by (simp add: route_file_step_skip [OF False])
    then show ?thesis
      using Cons [of st] False by (simp add: ok_selected_Cons)
  next
    case True
    show ?thesis
    proof (cases "route_ok fs d n")
      case False
      obtain e where "route_file_step fs d skip existing st n = Inl e"
        using route_file_step_raises [OF True False] by blast
      then have "routes_loop fs d skip existing st (n # ns) = (st, Some e)"
        by simp
      then show ?thesis
        using True False by (simp add: ok_selected_Cons)
    next
      case ok: True
      define rw where "rw = projr (route_of_file (rs_route_id st) (path_join d n)
          (gpx_points fs (path_join d n)))"
      obtain st1 where st1: "route_file_step fs d skip existing st n = Inr st1"
        "flushed st1 [] = flushed st [rw]" "rs_route_id st1 = rs_route_id st + 1"
        "rs_inserted st1 = rs_inserted st + 1"
        using route_file_step_ok [OF True ok rw_def] by blast
      have l: "routes_loop fs d skip existing st (n # ns) = routes_loop fs d skip existing st1 ns"
        by (simp add: st1(1))
      have o: "ok_selected fs d skip existing (n # ns) = n # ok_selected fs d skip existing ns"
        using True ok by (simp add: ok_selected_Cons)
      have R: "routes_of_files fs d (rs_route_id st) (n # xs) =
          rw # routes_of_files fs d (rs_route_id st1) xs" for xs
        by (simp add: rw_def st1(3))
      have f: "filter (route_selected fs d skip existing) (n # ns) =
          n # filter (route_selected fs d skip existing) ns"
        using True by simp
      note ih = Cons [of st1]
      have "flushed (fst (routes_loop fs d skip existing st1 ns)) [] =
          flushed st (rw # routes_of_files fs d (rs_route_id st1) (ok_selected fs d skip existing ns))"
        using ih [THEN conjunct1] flushed_Cons [OF st1(2)] by simp
      moreover have "rs_route_id (fst (routes_loop fs d skip existing st1 ns)) =
          rs_route_id st + int (length (n # ok_selected fs d skip existing ns))"
        using ih [THEN conjunct2, THEN conjunct1] st1(3) by simp
      moreover have "rs_inserted (fst (routes_loop fs d skip existing st1 ns)) =
          rs_inserted st + length (n # ok_selected fs d skip existing ns)"
        using ih [THEN conjunct2, THEN conjunct2, THEN conjunct1] st1(4) by simp
      moreover have "snd (routes_loop fs d skip existing st1 ns) = None \<longleftrightarrow>
          n # ok_selected fs d skip existing ns = n # filter (route_selected fs d skip existing) ns"
        using ih [THEN conjunct2, THEN conjunct2, THEN conjunct2] by simp
      ultimately show ?thesis
        unfolding l o R f by blast
    qed
  qed
qed

lemma routes_loop_committed:
  "rs_conn (fst (routes_loop fs d skip existing st names)) = rs_conn st \<or>
   (\<exists>ms zs. ok_selected fs d skip existing names = ms @ zs \<and>
      rs_conn (fst (routes_loop fs d skip existing st names)) =
        flushed st (routes_of_files fs d (rs_route_id st) ms))"
proof (induction names arbitrary: st)
  case Nil
  then show ?case by simp
next
  case (Cons n ns)
  show ?case
  proof (cases "route_selected fs d skip existing n")
    case False
    have "routes_loop fs d skip existing st (n # ns) = routes_loop fs d skip existing st ns"
      by (simp add: route_file_step_skip [OF False])
    then show ?thesis
      using Cons [of st] False by (simp add: ok_selected_Cons)
  next
    case True
    show ?thesis
    proof (cases "route_ok fs d n")
      case False
      obtain e where "route_file_step fs d skip existing st n = Inl e"
        using route_file_step_raises [OF True False] by blast
      then have "routes_loop fs d skip existing st (n # ns) = (st, Some e)"
        by simp
      then show ?thesis
        by simp
    next
      case ok: True
      define rw where "rw = projr (route_of_file (rs_route_id st) (path_join d n)
          (gpx_points fs (path_join d n)))"
      obtain st1 where st1: "route_file_step fs d skip existing st n = Inr st1"
        "flushed st1 [] = flushed st [rw]" "rs_route_id st1 = rs_route_id st + 1"
        "rs_conn st1 = rs_conn st \<or> rs_conn st1 = flushed st [rw]"
        using route_file_step_ok [OF True ok rw_def] by blast
      have l: "routes_loop fs d skip existing st (n # ns) = routes_loop fs d skip existing st1 ns"
        by (simp add: st1(1))
      have o: "ok_selected fs d skip existing (n # ns) = n # ok_selected fs d skip existing ns"
        using True ok by (simp add: ok_selected_Cons)
      have R: "routes_of_files fs d (rs_route_id st) (n # xs) =
          rw # routes_of_files fs d (rs_route_id st1) xs" for xs
        by (simp add: rw_def st1(3))
      let ?c = "rs_conn (fst (routes_loop fs d skip existing st1 ns))"
      consider (same) "?c = rs_conn st1"
        | (flush) ms zs where "ok_selected fs d skip existing ns = ms @ zs"
            "?c = flushed st1 (routes_of_files fs d (rs_route_id st1) ms)"
        using Cons [of st1] by blast
      then show ?thesis
      proof cases
        case same
        from st1(4) show ?thesis
        proof
          assume "rs_conn st1 = rs_conn st"
          then show ?thesis
            unfolding l using same by simp
        next
          assume "rs_conn st1 = flushed st [rw]"
          moreover have "routes_of_files fs d (rs_route_id st) [n] = [rw]"
            by (simp add: rw_def)
          ultimately have "?c = flushed st (routes_of_files fs d (rs_route_id st) [n])"
            using same by (simp only:)
          moreover have "ok_selected fs d skip existing (n # ns) =
              [n] @ ok_selected fs d skip existing ns"
            by (simp add: o)
          ultimately show ?thesis
            unfolding l by blast
        qed
      next
        case flush
        have "?c = flushed st (rw # routes_of_files fs d (rs_route_id st1) ms)"
          using flush(2) flushed_Cons [OF st1(2)] by simp
        then have "?c = flushed st (routes_of_files fs d (rs_route_id st) (n # ms))"
          unfolding R .
        moreover have "ok_selected fs d skip existing (n # ns) = (n # ms) @ zs"
          by (simp add: o flush(1))
        ultimately show ?thesis
          unfolding l by blast
      qed
    qed
  qed
qed

text \<open>
  Where the loop has flushed: after the files \<open>ms\<close>, which filled the buffer, and
  not again in the files \<open>zs\<close> after them, whose points have stayed below the
  threshold.
\<close>

lemma points_total_simps [simp]:
  "points_total fs d [] = 0"
  "points_total fs d (n # ns) = length (gpx_points fs (path_join d n)) + points_total fs d ns"
  "points_total fs d (ms @ ns) = points_total fs d ms + points_total fs d ns"
  by (simp_all add: points_total_def)

lemma routes_loop_buffer:
  "\<exists>ms zs. ok_selected fs d skip existing names = ms @ zs \<and>
     (if ms = []
      then rs_conn (fst (routes_loop fs d skip existing st names)) = rs_conn st \<and>
           (zs = [] \<or> length (rs_point_rows st) + points_total fs d zs < 20000)
      else rs_conn (fst (routes_loop fs d skip existing st names)) =
             flushed st (routes_of_files fs d (rs_route_id st) ms) \<and>
           20000 \<le> length (rs_point_rows st) + points_total fs d ms \<and>
           points_total fs d zs < 20000)"
proof (induction names arbitrary: st)
  case Nil
  then show ?case by simp
next
  case (Cons n ns)
  show ?case
  proof (cases "route_selected fs d skip existing n")
    case False
    have l: "routes_loop fs d skip existing st (n # ns) = routes_loop fs d skip existing st ns"
      by (simp add: route_file_step_skip [OF False])
    have o: "ok_selected fs d skip existing (n # ns) = ok_selected fs d skip existing ns"
      using False by (simp add: ok_selected_Cons)
    show ?thesis
      unfolding l o by (rule Cons)
  next
    case True
    show ?thesis
    proof (cases "route_ok fs d n")
      case False
      obtain e where "route_file_step fs d skip existing st n = Inl e"
        using route_file_step_raises [OF True False] by blast
      then have "routes_loop fs d skip existing st (n # ns) = (st, Some e)"
        by simp
      moreover have "ok_selected fs d skip existing (n # ns) = []"
        using True False by (simp add: ok_selected_Cons)
      ultimately show ?thesis
        by simp
    next
      case ok: True
      define rw where "rw = projr (route_of_file (rs_route_id st) (path_join d n)
          (gpx_points fs (path_join d n)))"
      define k where "k = length (gpx_points fs (path_join d n))"
      obtain st1 where st1: "route_file_step fs d skip existing st n = Inr st1"
        "flushed st1 [] = flushed st [rw]" "rs_route_id st1 = rs_route_id st + 1"
        "rs_conn st1 = rs_conn st \<and> length (rs_point_rows st1) = length (rs_point_rows st) + k \<and>
           length (rs_point_rows st1) < 20000 \<or>
         rs_conn st1 = flushed st [rw] \<and> rs_point_rows st1 = [] \<and>
           20000 \<le> length (rs_point_rows st) + k"
        using route_file_step_ok [OF True ok rw_def] unfolding k_def by blast
      have l: "routes_loop fs d skip existing st (n # ns) = routes_loop fs d skip existing st1 ns"
        by (simp add: st1(1))
      have o: "ok_selected fs d skip existing (n # ns) = n # ok_selected fs d skip existing ns"
        using True ok by (simp add: ok_selected_Cons)
      have R: "routes_of_files fs d (rs_route_id st) (n # xs) =
          rw # routes_of_files fs d (rs_route_id st1) xs" for xs
        by (simp add: rw_def st1(3))
      have R1: "routes_of_files fs d (rs_route_id st) [n] = [rw]"
        by (simp add: rw_def)
      have pt: "points_total fs d (n # xs) = k + points_total fs d xs" for xs
        by (simp add: k_def)
      let ?c = "rs_conn (fst (routes_loop fs d skip existing st1 ns))"
      obtain ms zs where ih: "ok_selected fs d skip existing ns = ms @ zs"
        "if ms = []
         then ?c = rs_conn st1 \<and> (zs = [] \<or> length (rs_point_rows st1) + points_total fs d zs < 20000)
         else ?c = flushed st1 (routes_of_files fs d (rs_route_id st1) ms) \<and>
              20000 \<le> length (rs_point_rows st1) + points_total fs d ms \<and>
              points_total fs d zs < 20000"
        using Cons [of st1] by blast
      show ?thesis
      proof (cases "ms = []")
        case True
        then have c: "?c = rs_conn st1"
          and z: "zs = [] \<or> length (rs_point_rows st1) + points_total fs d zs < 20000"
          using ih(2) by simp_all
        from st1(4) show ?thesis
        proof
          assume a: "rs_conn st1 = rs_conn st \<and>
              length (rs_point_rows st1) = length (rs_point_rows st) + k \<and>
              length (rs_point_rows st1) < 20000"
          have "length (rs_point_rows st) + points_total fs d (n # zs) < 20000"
            using a z by (auto simp: k_def)
          moreover have "ok_selected fs d skip existing (n # ns) = [] @ (n # zs)"
            using o ih(1) True by simp
          moreover have "?c = rs_conn st"
            using c a by simp
          ultimately show ?thesis
            unfolding l by (intro exI [of _ "[]"] exI [of _ "n # zs"]) simp
        next
          assume a: "rs_conn st1 = flushed st [rw] \<and> rs_point_rows st1 = [] \<and>
              20000 \<le> length (rs_point_rows st) + k"
          have "points_total fs d zs < 20000"
            using a z by auto
          moreover have "ok_selected fs d skip existing (n # ns) = [n] @ zs"
            using o ih(1) True by simp
          moreover have "?c = flushed st (routes_of_files fs d (rs_route_id st) [n])"
            using c a by (simp only: R1)
          moreover have "20000 \<le> length (rs_point_rows st) + points_total fs d [n]"
            using a by (simp add: k_def)
          ultimately show ?thesis
            unfolding l by (intro exI [of _ "[n]"] exI [of _ zs]) simp
        qed
      next
        case False
        then have c: "?c = flushed st1 (routes_of_files fs d (rs_route_id st1) ms)"
          and b: "20000 \<le> length (rs_point_rows st1) + points_total fs d ms"
          and z: "points_total fs d zs < 20000"
          using ih(2) by simp_all
        have "?c = flushed st (rw # routes_of_files fs d (rs_route_id st1) ms)"
          using c flushed_Cons [OF st1(2)] by simp
        then have "?c = flushed st (routes_of_files fs d (rs_route_id st) (n # ms))"
          unfolding R .
        moreover have "ok_selected fs d skip existing (n # ns) = (n # ms) @ zs"
          by (simp add: o ih(1))
        moreover have "20000 \<le> length (rs_point_rows st) + points_total fs d (n # ms)"
          using st1(4) b by (auto simp: k_def)
        ultimately show ?thesis
          unfolding l using z by (intro exI [of _ "n # ms"] exI [of _ zs]) simp
      qed
    qed
  qed
qed

text \<open>
  The import as a function of the files it ingests: \<open>sel\<close> are the files selected,
  \<open>ok_selected\<close> those before the first that raises. The store left behind holds the
  rows of a prefix of them, of all of them when the run returns.
\<close>

lemma import_workout_routes_returns:
  assumes "listdir fs d = Some names"
    and "\<forall>n\<in>set (filter (route_selected fs d skip
            (if skip then set (map route_file_path (workout_routes conn)) else {})) (sort names)).
           route_ok fs d n"
  shows "import_workout_routes fs conn d skip =
     (flushed \<lparr>rs_conn = conn, rs_route_rows = [], rs_point_rows = [],
               rs_route_id = next_id (Some (map route_id (workout_routes conn))),
               rs_inserted = 0\<rparr>
        (routes_of_files fs d (next_id (Some (map route_id (workout_routes conn))))
           (filter (route_selected fs d skip
              (if skip then set (map route_file_path (workout_routes conn)) else {})) (sort names))),
      Inr (length (filter (route_selected fs d skip
              (if skip then set (map route_file_path (workout_routes conn)) else {})) (sort names))))"
proof -
  define existing where
    "existing = (if skip then set (map route_file_path (workout_routes conn)) else {})"
  have e: "(if skip then list_existing (Some (map route_file_path (workout_routes conn))) else {}) =
      existing"
    by (simp add: existing_def list_existing_def)
  define st0 where "st0 = \<lparr>rs_conn = conn, rs_route_rows = [], rs_point_rows = [],
     rs_route_id = next_id (Some (map route_id (workout_routes conn))), rs_inserted = 0\<rparr>"
  have st0: "rs_route_id st0 = next_id (Some (map route_id (workout_routes conn)))"
    "rs_inserted st0 = 0"
    by (simp_all add: st0_def)
  obtain st raised where l: "routes_loop fs d skip existing st0 (sort names) = (st, raised)"
    by (cases "routes_loop fs d skip existing st0 (sort names)") auto
  note v = routes_loop_view [of fs d skip existing st0 "sort names", unfolded l fst_conv snd_conv]
  have a: "ok_selected fs d skip existing (sort names) =
      filter (route_selected fs d skip existing) (sort names)"
    using assms(2) unfolding existing_def [symmetric] by (simp add: ok_selected_all)
  have n: "raised = None"
    using v a by blast
  have "import_workout_routes fs conn d skip = (flushed st [], Inr (rs_inserted st))"
    by (simp add: import_workout_routes_def assms(1) Let_def e st0_def [symmetric] l n flushed_Nil)
  also have "\<dots> = (flushed st0 (routes_of_files fs d (rs_route_id st0)
      (filter (route_selected fs d skip existing) (sort names))),
      Inr (length (filter (route_selected fs d skip existing) (sort names))))"
    using v a by (simp add: st0(2))
  finally show ?thesis
    by (simp add: st0_def existing_def)
qed

lemma import_workout_routes_Inr:
  assumes "listdir fs d = Some names" "snd (import_workout_routes fs conn d skip) = Inr k"
  shows "\<forall>n\<in>set (filter (route_selected fs d skip
            (if skip then set (map route_file_path (workout_routes conn)) else {})) (sort names)).
           route_ok fs d n"
proof -
  define existing where
    "existing = (if skip then set (map route_file_path (workout_routes conn)) else {})"
  have e: "(if skip then list_existing (Some (map route_file_path (workout_routes conn))) else {}) =
      existing"
    by (simp add: existing_def list_existing_def)
  define st0 where "st0 = \<lparr>rs_conn = conn, rs_route_rows = [], rs_point_rows = [],
     rs_route_id = next_id (Some (map route_id (workout_routes conn))), rs_inserted = 0\<rparr>"
  obtain st raised where l: "routes_loop fs d skip existing st0 (sort names) = (st, raised)"
    by (cases "routes_loop fs d skip existing st0 (sort names)") auto
  note v = routes_loop_view [of fs d skip existing st0 "sort names", unfolded l fst_conv snd_conv]
  have "raised = None"
    using assms(2)
    by (cases raised)
      (simp_all add: import_workout_routes_def assms(1) Let_def e st0_def [symmetric] l)
  then have "ok_selected fs d skip existing (sort names) =
      filter (route_selected fs d skip existing) (sort names)"
    using v by blast
  then show ?thesis
    unfolding existing_def [symmetric] by (simp add: ok_selected_all)
qed

lemma import_workout_routes_store:
  assumes "listdir fs d = Some names"
  shows "\<exists>ms zs. ok_selected fs d skip
              (if skip then set (map route_file_path (workout_routes conn)) else {}) (sort names) =
              ms @ zs \<and>
           fst (import_workout_routes fs conn d skip) =
             flush_routes conn
               (map fst (routes_of_files fs d (next_id (Some (map route_id (workout_routes conn)))) ms))
               (concat (map snd
                  (routes_of_files fs d (next_id (Some (map route_id (workout_routes conn)))) ms))) \<and>
           (\<forall>k. snd (import_workout_routes fs conn d skip) = Inr k \<longrightarrow> k = length ms)"
proof -
  define existing where
    "existing = (if skip then set (map route_file_path (workout_routes conn)) else {})"
  have e: "(if skip then list_existing (Some (map route_file_path (workout_routes conn))) else {}) =
      existing"
    by (simp add: existing_def list_existing_def)
  define n0 where "n0 = next_id (Some (map route_id (workout_routes conn)))"
  define st0 where "st0 = \<lparr>rs_conn = conn, rs_route_rows = [], rs_point_rows = [],
     rs_route_id = n0, rs_inserted = 0\<rparr>"
  have st0: "rs_route_id st0 = n0" "rs_inserted st0 = 0" "rs_conn st0 = conn"
    "flushed st0 rows = flush_routes conn (map fst rows) (concat (map snd rows))" for rows
    by (simp_all add: st0_def flushed_def)
  obtain st raised where l: "routes_loop fs d skip existing st0 (sort names) = (st, raised)"
    by (cases "routes_loop fs d skip existing st0 (sort names)") auto
  note v = routes_loop_view [of fs d skip existing st0 "sort names", unfolded l fst_conv snd_conv]
  note c = routes_loop_committed [of fs d skip existing st0 "sort names", unfolded l fst_conv]
  let ?ok = "ok_selected fs d skip existing (sort names)"
  show ?thesis
  proof (cases raised)
    case None
    have "import_workout_routes fs conn d skip = (flushed st [], Inr (rs_inserted st))"
      by (simp add: import_workout_routes_def assms(1) Let_def e st0_def [symmetric]
          n0_def [symmetric] l None flushed_Nil)
    then have "fst (import_workout_routes fs conn d skip) =
          flush_routes conn (map fst (routes_of_files fs d n0 ?ok))
            (concat (map snd (routes_of_files fs d n0 ?ok)))"
      "snd (import_workout_routes fs conn d skip) = Inr (length ?ok)"
      using v by (simp_all add: st0)
    moreover have "?ok = ?ok @ []"
      by simp
    ultimately show ?thesis
      unfolding existing_def [symmetric] n0_def [symmetric] by (metis sum.inject(2))
  next
    case (Some x)
    have i: "import_workout_routes fs conn d skip = (rs_conn st, Inl x)"
      by (simp add: import_workout_routes_def assms(1) Let_def e st0_def [symmetric]
          n0_def [symmetric] l Some)
    from c obtain ms zs where "?ok = ms @ zs"
      "rs_conn st = flush_routes conn (map fst (routes_of_files fs d n0 ms))
         (concat (map snd (routes_of_files fs d n0 ms)))"
    proof
      assume "rs_conn st = rs_conn st0"
      then have "rs_conn st = flush_routes conn (map fst (routes_of_files fs d n0 []))
         (concat (map snd (routes_of_files fs d n0 [])))"
        by (simp add: st0)
      moreover have "?ok = [] @ ?ok"
        by simp
      ultimately show ?thesis
        using that by blast
    next
      assume "\<exists>ms zs. ?ok = ms @ zs \<and> rs_conn st = flushed st0 (routes_of_files fs d (rs_route_id st0) ms)"
      then show ?thesis
        using that by (auto simp: st0)
    qed
    then show ?thesis
      unfolding existing_def [symmetric] n0_def [symmetric] by (auto simp: i)
  qed
qed

lemma flush_ecg_flush_ecg:
  "flush_ecg (flush_ecg c a b) a' b' = flush_ecg c (a @ a') (b @ b')"
  by (simp add: flush_ecg_def)

lemma flush_ecg_empty [simp]: "flush_ecg c [] [] = c"
  by (simp add: flush_ecg_def)

lemma ecg_file_step_skip:
  "\<not> ecg_selected dv fs d skip existing name \<Longrightarrow>
   ecg_file_step dv fs d skip existing st name = st"
  by (auto simp: ecg_file_step_def ecg_selected_def csv_name_def Let_def case_prod_unfold)

lemma ecg_file_step_selected:
  assumes "ecg_selected dv fs d skip existing name"
  shows "flush_ecg (es_conn (ecg_file_step dv fs d skip existing st name))
           (es_record_rows (ecg_file_step dv fs d skip existing st name))
           (es_sample_rows (ecg_file_step dv fs d skip existing st name)) =
         flush_ecg (es_conn st)
           (es_record_rows st @
              [fst (ecg_of_file (es_ecg_id st) (path_join d name) (fst (parse_ecg_csv dv (csv_rows fs (path_join d name)))) (snd (parse_ecg_csv dv (csv_rows fs (path_join d name)))))])
           (es_sample_rows st @
              snd (ecg_of_file (es_ecg_id st) (path_join d name) (fst (parse_ecg_csv dv (csv_rows fs (path_join d name)))) (snd (parse_ecg_csv dv (csv_rows fs (path_join d name))))))"
    and "es_ecg_id (ecg_file_step dv fs d skip existing st name) = es_ecg_id st + 1"
    and "es_inserted (ecg_file_step dv fs d skip existing st name) = es_inserted st + 1"
proof -
  obtain row prows where
    rw: "ecg_of_file (es_ecg_id st) (path_join d name) (fst (parse_ecg_csv dv (csv_rows fs (path_join d name)))) (snd (parse_ecg_csv dv (csv_rows fs (path_join d name)))) = (row, prows)"
    by (cases "ecg_of_file (es_ecg_id st) (path_join d name) (fst (parse_ecg_csv dv (csv_rows fs (path_join d name)))) (snd (parse_ecg_csv dv (csv_rows fs (path_join d name))))") auto
  have g: "endswith (lower name) (ustr ''.csv'')" "\<not> (skip \<and> path_join d name \<in> existing)"
    "snd (parse_ecg_csv dv (csv_rows fs (path_join d name))) \<noteq> []"
    using assms by (auto simp: ecg_selected_def csv_name_def)
  show "flush_ecg (es_conn (ecg_file_step dv fs d skip existing st name))
           (es_record_rows (ecg_file_step dv fs d skip existing st name))
           (es_sample_rows (ecg_file_step dv fs d skip existing st name)) =
         flush_ecg (es_conn st)
           (es_record_rows st @
              [fst (ecg_of_file (es_ecg_id st) (path_join d name) (fst (parse_ecg_csv dv (csv_rows fs (path_join d name)))) (snd (parse_ecg_csv dv (csv_rows fs (path_join d name)))))])
           (es_sample_rows st @
              snd (ecg_of_file (es_ecg_id st) (path_join d name) (fst (parse_ecg_csv dv (csv_rows fs (path_join d name)))) (snd (parse_ecg_csv dv (csv_rows fs (path_join d name))))))"
    using g by (auto simp: ecg_file_step_def Let_def case_prod_unfold rw flush_ecg_flush_ecg)
  show "es_ecg_id (ecg_file_step dv fs d skip existing st name) = es_ecg_id st + 1"
    using g by (auto simp: ecg_file_step_def Let_def case_prod_unfold rw)
  show "es_inserted (ecg_file_step dv fs d skip existing st name) = es_inserted st + 1"
    using g by (auto simp: ecg_file_step_def Let_def case_prod_unfold rw)
qed

lemma ecgs_of_files_length [simp]: "length (ecgs_of_files dv fs d rid ns) = length ns"
  by (induction ns arbitrary: rid) auto

lemma ecg_loop_view:
  "flush_ecg (es_conn (foldl (ecg_file_step dv fs d skip existing) st names))
     (es_record_rows (foldl (ecg_file_step dv fs d skip existing) st names))
     (es_sample_rows (foldl (ecg_file_step dv fs d skip existing) st names)) =
   flush_ecg (es_conn st)
     (es_record_rows st @
        map fst (ecgs_of_files dv fs d (es_ecg_id st) (filter (ecg_selected dv fs d skip existing) names)))
     (es_sample_rows st @
        concat (map snd (ecgs_of_files dv fs d (es_ecg_id st)
          (filter (ecg_selected dv fs d skip existing) names))))
   \<and> es_ecg_id (foldl (ecg_file_step dv fs d skip existing) st names) =
       es_ecg_id st + int (length (filter (ecg_selected dv fs d skip existing) names))
   \<and> es_inserted (foldl (ecg_file_step dv fs d skip existing) st names) =
       es_inserted st + length (filter (ecg_selected dv fs d skip existing) names)"
  (is "?P st names")
proof (induction names arbitrary: st)
  case Nil
  then show ?case by simp
next
  case (Cons n ns)
  let ?step = "ecg_file_step dv fs d skip existing"
  let ?sel = "filter (ecg_selected dv fs d skip existing)"
  show ?case
  proof (cases "ecg_selected dv fs d skip existing n")
    case False
    have "?step st n = st"
      by (rule ecg_file_step_skip [OF False])
    moreover have "?sel (n # ns) = ?sel ns"
      using False by simp
    ultimately show ?thesis
      using Cons [of st] by (simp only: foldl_Cons)
  next
    case True
    let ?st1 = "?step st n"
    let ?rw = "ecg_of_file (es_ecg_id st) (path_join d n) (fst (parse_ecg_csv dv (csv_rows fs (path_join d n)))) (snd (parse_ecg_csv dv (csv_rows fs (path_join d n))))"
    let ?R = "ecgs_of_files dv fs d (es_ecg_id st + 1) (?sel ns)"
    have s: "flush_ecg (es_conn ?st1) (es_record_rows ?st1) (es_sample_rows ?st1) =
               flush_ecg (es_conn st) (es_record_rows st @ [fst ?rw]) (es_sample_rows st @ snd ?rw)"
      "es_ecg_id ?st1 = es_ecg_id st + 1" "es_inserted ?st1 = es_inserted st + 1"
      using ecg_file_step_selected [OF True, of st] by simp_all
    have sel: "?sel (n # ns) = n # ?sel ns"
      using True by simp
    have "flush_ecg (es_conn (foldl ?step ?st1 ns)) (es_record_rows (foldl ?step ?st1 ns))
            (es_sample_rows (foldl ?step ?st1 ns)) =
          flush_ecg (es_conn ?st1) (es_record_rows ?st1 @ map fst ?R)
            (es_sample_rows ?st1 @ concat (map snd ?R))"
      using Cons [of ?st1] by (simp add: s(2))
    also have "\<dots> = flush_ecg
        (flush_ecg (es_conn ?st1) (es_record_rows ?st1) (es_sample_rows ?st1))
        (map fst ?R) (concat (map snd ?R))"
      by (simp add: flush_ecg_flush_ecg)
    also have "\<dots> = flush_ecg (es_conn st)
        (es_record_rows st @ map fst (ecgs_of_files dv fs d (es_ecg_id st) (?sel (n # ns))))
        (es_sample_rows st @ concat (map snd (ecgs_of_files dv fs d (es_ecg_id st) (?sel (n # ns)))))"
      unfolding s(1) using True by (simp add: flush_ecg_flush_ecg)
    finally have a: "flush_ecg (es_conn (foldl ?step st (n # ns)))
        (es_record_rows (foldl ?step st (n # ns))) (es_sample_rows (foldl ?step st (n # ns))) =
      flush_ecg (es_conn st)
        (es_record_rows st @ map fst (ecgs_of_files dv fs d (es_ecg_id st) (?sel (n # ns))))
        (es_sample_rows st @ concat (map snd (ecgs_of_files dv fs d (es_ecg_id st) (?sel (n # ns)))))"
      by simp
    have b: "es_ecg_id (foldl ?step st (n # ns)) = es_ecg_id st + int (length (?sel (n # ns)))"
      "es_inserted (foldl ?step st (n # ns)) = es_inserted st + length (?sel (n # ns))"
      using Cons [of ?st1] True by (simp_all add: s)
    show ?thesis
      using a b by blast
  qed
qed

lemma import_ecg_eq:
  "import_ecg dv fs conn d skip =
     (case listdir fs d of
        None \<Rightarrow> (conn, 0)
      | Some names \<Rightarrow>
          let existing = (if skip then set (map ecg_file_path (ecg_records conn)) else {});
              sel = filter (ecg_selected dv fs d skip existing) (sort names);
              R = ecgs_of_files dv fs d (next_id (Some (map ecg_id (ecg_records conn)))) sel
          in (flush_ecg conn (map fst R) (concat (map snd R)), length sel))"
proof (cases "listdir fs d")
  case None
  then show ?thesis by (simp add: import_ecg_def)
next
  case (Some names)
  define existing where
    "existing = (if skip then set (map ecg_file_path (ecg_records conn)) else {})"
  have e: "(if skip then list_existing (Some (map ecg_file_path (ecg_records conn))) else {}) =
      existing"
    by (simp add: existing_def list_existing_def)
  define st0 where "st0 = \<lparr>es_conn = conn, es_record_rows = [], es_sample_rows = [],
     es_ecg_id = next_id (Some (map ecg_id (ecg_records conn))), es_inserted = 0\<rparr>"
  have st0: "es_conn st0 = conn" "es_record_rows st0 = []" "es_sample_rows st0 = []"
    "es_ecg_id st0 = next_id (Some (map ecg_id (ecg_records conn)))" "es_inserted st0 = 0"
    by (simp_all add: st0_def)
  have "import_ecg dv fs conn d skip =
      (flush_ecg (es_conn (foldl (ecg_file_step dv fs d skip existing) st0 (sort names)))
         (es_record_rows (foldl (ecg_file_step dv fs d skip existing) st0 (sort names)))
         (es_sample_rows (foldl (ecg_file_step dv fs d skip existing) st0 (sort names))),
       es_inserted (foldl (ecg_file_step dv fs d skip existing) st0 (sort names)))"
    by (simp only: import_ecg_def Some option.case Let_def e st0_def)
  also have "\<dots> =
      (flush_ecg conn
         (map fst (ecgs_of_files dv fs d (next_id (Some (map ecg_id (ecg_records conn))))
            (filter (ecg_selected dv fs d skip existing) (sort names))))
         (concat (map snd (ecgs_of_files dv fs d (next_id (Some (map ecg_id (ecg_records conn))))
            (filter (ecg_selected dv fs d skip existing) (sort names))))),
       length (filter (ecg_selected dv fs d skip existing) (sort names)))"
    using ecg_loop_view [of dv fs d skip existing st0 "sort names"] by (simp add: st0)
  finally show ?thesis
    by (simp add: Some Let_def existing_def)
qed

section \<open>Insert-or-ignore and fresh ids\<close>

lemma foldl_insert_or_ignore_keeps:
  "p \<in> path ` set T \<Longrightarrow>
   filter (\<lambda>r. path r = p) (foldl (insert_or_ignore key path) T rows) = filter (\<lambda>r. path r = p) T"
proof (induction rows arbitrary: T)
  case Nil
  then show ?case by simp
next
  case (Cons r rows)
  have "p \<in> path ` set (insert_or_ignore key path T r)"
    using Cons.prems by (auto simp: insert_or_ignore_def)
  moreover have "filter (\<lambda>r. path r = p) (insert_or_ignore key path T r) = filter (\<lambda>r. path r = p) T"
    using Cons.prems by (auto simp: insert_or_ignore_def)
  ultimately show ?case
    using Cons.IH [of "insert_or_ignore key path T r"] by simp
qed

lemma foldl_insert_or_ignore_extends:
  "\<exists>new. foldl (insert_or_ignore key path) T rows = T @ new \<and>
         distinct (map path new) \<and> set (map path new) \<inter> set (map path T) = {} \<and>
         set new \<subseteq> set rows"
proof (induction rows arbitrary: T)
  case Nil
  then show ?case by simp
next
  case (Cons r rows)
  show ?case
  proof (cases "\<exists>x\<in>set T. key x = key r \<or> path x = path r")
    case True
    then have "insert_or_ignore key path T r = T"
      by (simp add: insert_or_ignore_def)
    then show ?thesis
      using Cons.IH [of T] by auto
  next
    case False
    then have i: "insert_or_ignore key path T r = T @ [r]"
      by (simp add: insert_or_ignore_def)
    obtain new where n: "foldl (insert_or_ignore key path) (T @ [r]) rows = (T @ [r]) @ new"
      "distinct (map path new)" "set (map path new) \<inter> set (map path (T @ [r])) = {}"
      "set new \<subseteq> set rows"
      using Cons.IH [of "T @ [r]"] by blast
    have "foldl (insert_or_ignore key path) T (r # rows) = T @ (r # new)"
      using i n(1) by simp
    moreover have "distinct (map path (r # new))"
      using n(2,3) by auto
    moreover have "set (map path (r # new)) \<inter> set (map path T) = {}"
      using n(3) False by auto
    moreover have "set (r # new) \<subseteq> set (r # rows)"
      using n(4) by auto
    ultimately show ?thesis by blast
  qed
qed

lemma foldl_insert_or_ignore_all:
  "distinct (map key rows) \<Longrightarrow> set (map key rows) \<inter> set (map key T) = {} \<Longrightarrow>
   distinct (map path rows) \<Longrightarrow> set (map path rows) \<inter> set (map path T) = {} \<Longrightarrow>
   foldl (insert_or_ignore key path) T rows = T @ rows"
proof (induction rows arbitrary: T)
  case Nil
  then show ?case by simp
next
  case (Cons r rows)
  have "key r \<notin> key ` set T" "path r \<notin> path ` set T"
    using Cons.prems by auto
  then have "\<not> (\<exists>x\<in>set T. key x = key r \<or> path x = path r)"
    by (metis imageI)
  then have i: "insert_or_ignore key path T r = T @ [r]"
    by (simp add: insert_or_ignore_def)
  have "foldl (insert_or_ignore key path) (T @ [r]) rows = (T @ [r]) @ rows"
    using Cons.prems by (intro Cons.IH) auto
  then show ?case
    using i by simp
qed

lemma foldl_insert_or_ignore_paths:
  "distinct (map key rows) \<Longrightarrow> set (map key rows) \<inter> set (map key T) = {} \<Longrightarrow>
   path ` set rows \<subseteq> path ` set (foldl (insert_or_ignore key path) T rows)"
proof (induction rows arbitrary: T)
  case Nil
  then show ?case by simp
next
  case (Cons r rows)
  let ?T = "insert_or_ignore key path T r"
  have k: "set (map key ?T) \<subseteq> insert (key r) (set (map key T))"
    by (auto simp: insert_or_ignore_def)
  have p: "path r \<in> path ` set ?T"
  proof (cases "\<exists>x\<in>set T. key x = key r \<or> path x = path r")
    case True
    have "key r \<notin> key ` set T"
      using Cons.prems by auto
    then have "\<exists>x\<in>set T. path x = path r"
      using True by (metis imageI)
    then have "path r \<in> path ` set T"
      by (metis imageI)
    then show ?thesis
      using True by (simp add: insert_or_ignore_def)
  next
    case False
    then show ?thesis
      by (simp add: insert_or_ignore_def)
  qed
  have a: "key r \<notin> set (map key rows)" "set (map key rows) \<inter> set (map key T) = {}"
    using Cons.prems by auto
  have "set (map key rows) \<inter> set (map key ?T) = {}"
    using a k by blast
  then have ih: "path ` set rows \<subseteq> path ` set (foldl (insert_or_ignore key path) ?T rows)"
    using Cons.prems by (intro Cons.IH) auto
  obtain new where "foldl (insert_or_ignore key path) ?T rows = ?T @ new"
    using foldl_insert_or_ignore_extends [of key path ?T rows] by blast
  then have "path r \<in> path ` set (foldl (insert_or_ignore key path) ?T rows)"
    using p by auto
  then show ?case
    using ih by simp
qed

lemma next_id_fresh: "x \<in> set xs \<Longrightarrow> x < next_id (Some xs)"
proof -
  assume "x \<in> set xs"
  then have "x \<le> Max (set xs)" "xs \<noteq> []"
    by auto
  then show ?thesis
    by (simp add: next_id_def)
qed

lemma route_ok_projr:
  assumes "route_ok fs d n"
  shows "route_id (fst (projr (route_of_file rid (path_join d n) (gpx_points fs (path_join d n))))) =
           rid"
    and "route_file_path (fst (projr (route_of_file rid (path_join d n)
           (gpx_points fs (path_join d n))))) = path_join d n"
proof -
  obtain rw where rw: "route_of_file rid (path_join d n) (gpx_points fs (path_join d n)) = Inr rw"
    using assms route_ok_iff [of fs d n rid]
    by (cases "route_of_file rid (path_join d n) (gpx_points fs (path_join d n))") simp_all
  show "route_id (fst (projr (route_of_file rid (path_join d n) (gpx_points fs (path_join d n))))) =
      rid"
    using route_of_file_Inr(1) [OF rw] by (simp add: rw)
  show "route_file_path (fst (projr (route_of_file rid (path_join d n)
      (gpx_points fs (path_join d n))))) = path_join d n"
    using route_of_file_Inr(2) [OF rw] by (simp add: rw)
qed

lemma routes_of_files_ids:
  "\<forall>n\<in>set ns. route_ok fs d n \<Longrightarrow>
   map (route_id \<circ> fst) (routes_of_files fs d rid ns) = map (\<lambda>i. rid + int i) [0..<length ns]"
proof (induction ns arbitrary: rid)
  case Nil
  then show ?case by simp
next
  case (Cons n ns)
  have "map (\<lambda>i. rid + int i) [0..<Suc (length ns)] =
      rid # map (\<lambda>i. (rid + 1) + int i) [0..<length ns]"
    by (simp add: map_upt_Suc add.assoc del: upt_Suc)
  then show ?case
    using Cons.IH [of "rid + 1"] Cons.prems by (simp add: route_ok_projr)
qed

lemma routes_of_files_paths:
  "\<forall>n\<in>set ns. route_ok fs d n \<Longrightarrow>
   map (route_file_path \<circ> fst) (routes_of_files fs d rid ns) = map (path_join d) ns"
  by (induction ns arbitrary: rid) (simp_all add: route_ok_projr)

lemma ecgs_of_files_ids:
  "map (ecg_id \<circ> fst) (ecgs_of_files dv fs d eid ns) = map (\<lambda>i. eid + int i) [0..<length ns]"
proof (induction ns arbitrary: eid)
  case Nil
  then show ?case by simp
next
  case (Cons n ns)
  have "map (\<lambda>i. eid + int i) [0..<Suc (length ns)] =
      eid # map (\<lambda>i. (eid + 1) + int i) [0..<length ns]"
    by (simp add: map_upt_Suc add.assoc del: upt_Suc)
  then show ?case
    using Cons [of "eid + 1"] by (simp add: ecg_of_file_def)
qed

lemma ecgs_of_files_paths:
  "map (ecg_file_path \<circ> fst) (ecgs_of_files dv fs d eid ns) = map (path_join d) ns"
  by (induction ns arbitrary: eid) (auto simp: ecg_of_file_def)

section \<open>Files the imports skip\<close>

lemma route_file_step_cong:
  assumes "gpx_name n \<longrightarrow> gpx_points fs (path_join d n) = gpx_points fs' (path_join d n)"
  shows "route_file_step fs d skip existing st n = route_file_step fs' d skip existing st n"
proof (cases "gpx_name n")
  case True
  then have "gpx_points fs (path_join d n) = gpx_points fs' (path_join d n)"
    using assms by simp
  then show ?thesis
    by (simp add: route_file_step_def Let_def)
next
  case False
  then show ?thesis
    by (simp add: route_file_step_def gpx_name_def)
qed

lemma routes_loop_cong:
  "\<forall>n\<in>set names. gpx_name n \<longrightarrow> gpx_points fs (path_join d n) = gpx_points fs' (path_join d n) \<Longrightarrow>
   routes_loop fs d skip existing st names = routes_loop fs' d skip existing st names"
proof (induction names arbitrary: st)
  case Nil
  then show ?case by simp
next
  case (Cons n ns)
  have "route_file_step fs d skip existing st n = route_file_step fs' d skip existing st n"
    using Cons.prems by (intro route_file_step_cong) simp
  moreover have "routes_loop fs d skip existing st1 ns = routes_loop fs' d skip existing st1 ns"
    for st1
    using Cons.prems by (intro Cons.IH) simp
  ultimately show ?case
    by (simp split: sum.splits)
qed

lemma routes_loop_filter:
  "routes_loop fs d skip existing st names =
   routes_loop fs d skip existing st (filter gpx_name names)"
proof (induction names arbitrary: st)
  case Nil
  then show ?case by simp
next
  case (Cons n ns)
  show ?case
  proof (cases "gpx_name n")
    case True
    then show ?thesis
      using Cons.IH by (simp split: sum.splits)
  next
    case False
    then have "route_file_step fs d skip existing st n = Inr st"
      by (simp add: route_file_step_def gpx_name_def)
    then show ?thesis
      using False Cons.IH [of st] by simp
  qed
qed

lemma import_workout_routes_cong:
  assumes l: "map_option (\<lambda>ns. sort (filter gpx_name ns)) (listdir fs d) =
              map_option (\<lambda>ns. sort (filter gpx_name ns)) (listdir fs' d)"
    and p: "\<And>n. gpx_name n \<Longrightarrow> gpx_points fs (path_join d n) = gpx_points fs' (path_join d n)"
  shows "import_workout_routes fs conn d skip = import_workout_routes fs' conn d skip"
proof (cases "listdir fs d")
  case None
  then have "listdir fs' d = None" using l by simp
  then show ?thesis using None by (simp add: import_workout_routes_def)
next
  case (Some names)
  then obtain names' where s': "listdir fs' d = Some names'"
    using l by (cases "listdir fs' d") auto
  have e: "sort (filter gpx_name names) = sort (filter gpx_name names')"
    using l Some s' by simp
  have "routes_loop fs d skip existing st (sort names) =
      routes_loop fs' d skip existing st (sort names')" for existing st
  proof -
    have "routes_loop fs d skip existing st (sort names) =
        routes_loop fs d skip existing st (sort (filter gpx_name names))"
      using routes_loop_filter [of fs d skip existing st "sort names"] by (simp only: filter_sort)
    also have "\<dots> = routes_loop fs' d skip existing st (sort (filter gpx_name names'))"
      unfolding e by (rule routes_loop_cong) (simp add: p)
    also have "\<dots> = routes_loop fs' d skip existing st (sort names')"
      using routes_loop_filter [of fs' d skip existing st "sort names'"] by (simp only: filter_sort)
    finally show ?thesis .
  qed
  then show ?thesis
    by (simp add: import_workout_routes_def Some s')
qed

lemma ecg_selected_filter:
  "filter (ecg_selected dv fs d skip existing) (sort names) =
   filter (\<lambda>n. \<not> (skip \<and> path_join d n \<in> existing) \<and>
                snd (parse_ecg_csv dv (csv_rows fs (path_join d n))) \<noteq> [])
     (sort (filter csv_name names))"
proof -
  have "filter (ecg_selected dv fs d skip existing) (sort names) =
      filter (\<lambda>n. \<not> (skip \<and> path_join d n \<in> existing) \<and>
                   snd (parse_ecg_csv dv (csv_rows fs (path_join d n))) \<noteq> [])
        (filter csv_name (sort names))"
    by (induction "sort names") (auto simp: ecg_selected_def)
  then show ?thesis
    by (simp only: filter_sort)
qed

lemma ecgs_of_files_cong:
  "(\<And>n. n \<in> set ns \<Longrightarrow> csv_rows fs (path_join d n) = csv_rows fs' (path_join d n)) \<Longrightarrow>
   ecgs_of_files dv fs d eid ns = ecgs_of_files dv fs' d eid ns"
  by (induction ns arbitrary: eid) auto

lemma import_ecg_cong:
  assumes l: "map_option (\<lambda>ns. sort (filter csv_name ns)) (listdir fs d) =
              map_option (\<lambda>ns. sort (filter csv_name ns)) (listdir fs' d)"
    and p: "\<And>n. csv_name n \<Longrightarrow> csv_rows fs (path_join d n) = csv_rows fs' (path_join d n)"
  shows "import_ecg dv fs conn d skip = import_ecg dv fs' conn d skip"
proof (cases "listdir fs d")
  case None
  then have "listdir fs' d = None" using l by simp
  then show ?thesis using None by (simp add: import_ecg_def)
next
  case (Some names)
  then obtain names' where s': "listdir fs' d = Some names'"
    using l by (cases "listdir fs' d") auto
  have e: "sort (filter csv_name names) = sort (filter csv_name names')"
    using l Some s' by simp
  define existing where
    "existing = (if skip then set (map ecg_file_path (ecg_records conn)) else {})"
  have sel: "filter (ecg_selected dv fs d skip existing) (sort names) =
      filter (ecg_selected dv fs' d skip existing) (sort names')"
    unfolding ecg_selected_filter e
    by (rule filter_cong [OF refl]) (simp add: p)
  have "n \<in> set (filter (ecg_selected dv fs' d skip existing) (sort names')) \<Longrightarrow>
      csv_rows fs (path_join d n) = csv_rows fs' (path_join d n)" for n
    by (simp add: ecg_selected_def p)
  then have "ecgs_of_files dv fs d eid (filter (ecg_selected dv fs' d skip existing) (sort names')) =
      ecgs_of_files dv fs' d eid (filter (ecg_selected dv fs' d skip existing) (sort names'))" for eid
    by (rule ecgs_of_files_cong)
  then show ?thesis
    by (simp add: import_ecg_eq Some s' Let_def existing_def [symmetric] sel)
qed

text \<open>
  Claim C10. The stage looks only at the directory entries whose names end, whatever the
  case, in \<^verbatim>\<open>.gpx\<close> (routes) and \<^verbatim>\<open>.csv\<close> (ECG): two file systems that
  list the same such names and hold the same content under them give the same store and
  the same two counts, whatever else the directories list and whatever the other files
  contain.
\<close>

theorem postprocess_reads_only_gpx_and_csv:
  assumes "map_option (\<lambda>ns. sort (filter gpx_name ns)) (listdir fs routes_dir) =
           map_option (\<lambda>ns. sort (filter gpx_name ns)) (listdir fs' routes_dir)"
    and "map_option (\<lambda>ns. sort (filter csv_name ns)) (listdir fs ecg_dir) =
         map_option (\<lambda>ns. sort (filter csv_name ns)) (listdir fs' ecg_dir)"
    and "\<forall>n. gpx_name n \<longrightarrow>
           gpx_points fs (path_join routes_dir n) = gpx_points fs' (path_join routes_dir n)"
    and "\<forall>n. csv_name n \<longrightarrow>
           csv_rows fs (path_join ecg_dir n) = csv_rows fs' (path_join ecg_dir n)"
  shows "postprocess dv fs conn routes_dir ecg_dir skip_existing no_routes no_ecg =
         postprocess dv fs' conn routes_dir ecg_dir skip_existing no_routes no_ecg"
proof -
  have r: "import_workout_routes fs conn routes_dir skip_existing =
      import_workout_routes fs' conn routes_dir skip_existing"
    using assms(1,3) by (intro import_workout_routes_cong) auto
  have e: "import_ecg dv fs c ecg_dir skip_existing = import_ecg dv fs' c ecg_dir skip_existing" for c
    using assms(2,4) by (intro import_ecg_cong) auto
  show ?thesis
    by (simp add: postprocess_def r e)
qed

lemma lower_append: "lower (a @ b) = lower a @ lower b"
  by (simp add: lower_def)

lemma endswith_append: "endswith b s \<Longrightarrow> endswith (a @ b) s"
  by (auto simp: endswith_def)

lemma path_join_suffix: "\<exists>x. path_join d n = x @ n"
proof -
  have "path_join d n = [] @ n \<or> path_join d n = d @ n \<or> path_join d n = (d @ [47]) @ n"
    by (simp add: path_join_def)
  then show ?thesis by blast
qed

lemma endswith_path_join:
  assumes "endswith (lower n) s"
  shows "endswith (lower (path_join d n)) s"
proof -
  obtain x where "path_join d n = x @ n"
    using path_join_suffix by blast
  then show ?thesis
    using assms by (simp add: lower_append endswith_append)
qed

theorem postprocess_reads_only_gpx_and_csv_witness:
  "postprocess ascii_digit
     \<lparr>listdir = (\<lambda>d. if d = ustr ''r'' then Some [ustr ''a.GPX'', ustr ''notes.txt'']
                     else if d = ustr ''e'' then Some [ustr ''y.png'', ustr ''x.csv''] else None),
      gpx_points = (\<lambda>p. [(Some (Finite 0), Some (Finite 0), None, None)]),
      csv_rows = (\<lambda>p. [[ustr ''1'']])\<rparr>
     \<lparr>workout_routes = [], workout_route_points = [], ecg_records = [], ecg_samples = []\<rparr>
     (ustr ''r'') (ustr ''e'') True False False =
   postprocess ascii_digit
     \<lparr>listdir = (\<lambda>d. if d = ustr ''r'' then Some [ustr ''a.GPX'']
                     else if d = ustr ''e'' then Some [ustr ''x.csv''] else None),
      gpx_points = (\<lambda>p. if endswith (lower p) (ustr ''.gpx'')
                          then [(Some (Finite 0), Some (Finite 0), None, None)] else []),
      csv_rows = (\<lambda>p. if endswith (lower p) (ustr ''.csv'') then [[ustr ''1'']] else [[ustr ''2'']])\<rparr>
     \<lparr>workout_routes = [], workout_route_points = [], ecg_records = [], ecg_samples = []\<rparr>
     (ustr ''r'') (ustr ''e'') True False False"
proof -
  have n: "gpx_name (ustr ''a.GPX'')" "\<not> gpx_name (ustr ''notes.txt'')"
    "csv_name (ustr ''x.csv'')" "\<not> csv_name (ustr ''y.png'')"
    by (simp_all add: gpx_name_def csv_name_def endswith_def lower_def ustr_def)
  have d: "ustr ''e'' \<noteq> ustr ''r''"
    by (simp add: ustr_def)
  show ?thesis
    by (rule postprocess_reads_only_gpx_and_csv)
      (simp_all add: n d, auto simp: gpx_name_def csv_name_def endswith_path_join)
qed

section \<open>Re-running the stage\<close>

lemma flush_routes_other [simp]:
  "ecg_records (flush_routes c a b) = ecg_records c"
  "ecg_samples (flush_routes c a b) = ecg_samples c"
  "workout_routes (flush_routes c a b) =
     foldl (insert_or_ignore route_id route_file_path) (workout_routes c) a"
  "workout_route_points (flush_routes c a b) = workout_route_points c @ b"
  by (simp_all add: flush_routes_def)

lemma import_workout_routes_tables:
  "ecg_records (fst (import_workout_routes fs conn d skip)) = ecg_records conn"
  "ecg_samples (fst (import_workout_routes fs conn d skip)) = ecg_samples conn"
proof -
  have "ecg_records (fst (import_workout_routes fs conn d skip)) = ecg_records conn \<and>
      ecg_samples (fst (import_workout_routes fs conn d skip)) = ecg_samples conn"
  proof (cases "listdir fs d")
    case None
    then show ?thesis by (simp add: import_workout_routes_def)
  next
    case (Some names)
    show ?thesis
      using import_workout_routes_store [OF Some, of skip conn] by auto
  qed
  then show "ecg_records (fst (import_workout_routes fs conn d skip)) = ecg_records conn"
    "ecg_samples (fst (import_workout_routes fs conn d skip)) = ecg_samples conn"
    by simp_all
qed

lemma import_workout_routes_extends:
  "\<exists>new. workout_routes (fst (import_workout_routes fs conn d skip)) = workout_routes conn @ new \<and>
         distinct (map route_file_path new) \<and>
         set (map route_file_path new) \<inter> set (map route_file_path (workout_routes conn)) = {}"
proof (cases "listdir fs d")
  case None
  then show ?thesis by (simp add: import_workout_routes_def)
next
  case (Some names)
  obtain rows where "workout_routes (fst (import_workout_routes fs conn d skip)) =
      foldl (insert_or_ignore route_id route_file_path) (workout_routes conn) rows"
    using import_workout_routes_store [OF Some, of skip conn] by auto
  then show ?thesis
    using foldl_insert_or_ignore_extends [of route_id route_file_path "workout_routes conn" rows]
    by auto
qed

lemma fresh_ids:
  fixes n0 :: int
  assumes "\<And>x. x \<in> set xs \<Longrightarrow> x < n0"
  shows "distinct (map (\<lambda>i. n0 + int i) [0..<k])"
    and "set (map (\<lambda>i. n0 + int i) [0..<k]) \<inter> set xs = {}"
proof -
  show "distinct (map (\<lambda>i. n0 + int i) [0..<k])"
    by (simp add: distinct_map inj_on_def)
  show "set (map (\<lambda>i. n0 + int i) [0..<k]) \<inter> set xs = {}"
    using assms by fastforce
qed

lemma import_workout_routes_covers:
  assumes "listdir fs d = Some names" "n \<in> set names" "gpx_name n"
    "gpx_points fs (path_join d n) \<noteq> []"
    and r: "snd (import_workout_routes fs conn d skip) = Inr k"
  shows "path_join d n \<in> set (map route_file_path
           (workout_routes (fst (import_workout_routes fs conn d skip))))"
proof -
  define existing where
    "existing = (if skip then set (map route_file_path (workout_routes conn)) else {})"
  define n0 where "n0 = next_id (Some (map route_id (workout_routes conn)))"
  define sel where "sel = filter (route_selected fs d skip existing) (sort names)"
  define R where "R = routes_of_files fs d n0 sel"
  have ok: "\<forall>n\<in>set sel. route_ok fs d n"
    using import_workout_routes_Inr [OF assms(1) r] by (simp add: sel_def existing_def)
  have t: "workout_routes (fst (import_workout_routes fs conn d skip)) =
      foldl (insert_or_ignore route_id route_file_path) (workout_routes conn) (map fst R)"
    using import_workout_routes_returns [OF assms(1), of skip conn] ok
    by (simp add: existing_def n0_def sel_def R_def flushed_def)
  show ?thesis
  proof (cases "route_selected fs d skip existing n")
    case True
    then have "n \<in> set sel"
      using assms(2) by (simp add: sel_def)
    then have "path_join d n \<in> set (map (route_file_path \<circ> fst) R)"
      by (simp add: R_def routes_of_files_paths [OF ok])
    then have p: "path_join d n \<in> route_file_path ` set (map fst R)"
      by (simp add: image_comp)
    have ids: "map route_id (map fst R) = map (\<lambda>i. n0 + int i) [0..<length sel]"
      using routes_of_files_ids [OF ok, where rid = n0] by (simp add: R_def)
    have lt: "\<And>x. x \<in> set (map route_id (workout_routes conn)) \<Longrightarrow> x < n0"
      unfolding n0_def by (rule next_id_fresh)
    have "route_file_path ` set (map fst R) \<subseteq>
        route_file_path ` set (foldl (insert_or_ignore route_id route_file_path)
          (workout_routes conn) (map fst R))"
      by (rule foldl_insert_or_ignore_paths) (simp_all only: ids fresh_ids [OF lt])
    then show ?thesis
      using p t by auto
  next
    case False
    then have "path_join d n \<in> set (map route_file_path (workout_routes conn))"
      using assms(3,4) by (auto simp: route_selected_def existing_def split: if_splits)
    moreover obtain new where
      "workout_routes (fst (import_workout_routes fs conn d skip)) = workout_routes conn @ new"
      using import_workout_routes_extends by blast
    ultimately show ?thesis by auto
  qed
qed

lemma import_workout_routes_rerun:
  assumes "workout_routes c = workout_routes (fst (import_workout_routes fs conn d skip))"
    and r: "snd (import_workout_routes fs conn d skip) = Inr k"
  shows "import_workout_routes fs c d True = (c, Inr 0)"
proof (cases "listdir fs d")
  case None
  then show ?thesis by (simp add: import_workout_routes_def)
next
  case (Some names)
  have "\<not> route_selected fs d True (set (map route_file_path (workout_routes c))) n"
    if "n \<in> set (sort names)" for n
  proof
    assume s: "route_selected fs d True (set (map route_file_path (workout_routes c))) n"
    then have "gpx_name n" "gpx_points fs (path_join d n) \<noteq> []"
      by (simp_all add: route_selected_def)
    then have "path_join d n \<in> set (map route_file_path (workout_routes c))"
      using import_workout_routes_covers [OF Some _ _ _ r, where n = n] that assms(1)
      by simp
    then show False
      using s by (simp add: route_selected_def)
  qed
  then have e: "filter (route_selected fs d True (set (map route_file_path (workout_routes c))))
      (sort names) = []"
    by (simp add: filter_empty_conv)
  have ok: "\<forall>n\<in>set (filter (route_selected fs d True
      (if True then set (map route_file_path (workout_routes c)) else {})) (sort names)).
      route_ok fs d n"
    by (simp only: if_True e) simp
  show ?thesis
    using import_workout_routes_returns [OF Some ok]
    by (simp only: if_True e) (simp add: flushed_def)
qed

text \<open>
  A run with skip-existing enabled that an exception has ended: the next such run skips
  what the first has flushed, buffers again what the first had buffered, no more, and
  ends at the same file, having written nothing.
\<close>

lemma flush_routes_paths:
  assumes ok: "\<forall>n\<in>set ms. route_ok fs d n"
  shows "set (map route_file_path (workout_routes (flush_routes conn
           (map fst (routes_of_files fs d (next_id (Some (map route_id (workout_routes conn)))) ms))
           B))) =
         set (map route_file_path (workout_routes conn)) \<union> path_join d ` set ms"
proof -
  define n0 where "n0 = next_id (Some (map route_id (workout_routes conn)))"
  define R where "R = routes_of_files fs d n0 ms"
  let ?T = "foldl (insert_or_ignore route_id route_file_path) (workout_routes conn) (map fst R)"
  have ids: "map route_id (map fst R) = map (\<lambda>i. n0 + int i) [0..<length ms]"
    using routes_of_files_ids [OF ok, where rid = n0] by (simp add: R_def)
  have paths: "map route_file_path (map fst R) = map (path_join d) ms"
    using routes_of_files_paths [OF ok] by (simp add: R_def)
  have lt: "\<And>x. x \<in> set (map route_id (workout_routes conn)) \<Longrightarrow> x < n0"
    unfolding n0_def by (rule next_id_fresh)
  have sup: "route_file_path ` set (map fst R) \<subseteq> route_file_path ` set ?T"
    by (rule foldl_insert_or_ignore_paths) (simp_all only: ids fresh_ids [OF lt])
  obtain new where new: "?T = workout_routes conn @ new" "set new \<subseteq> set (map fst R)"
    using foldl_insert_or_ignore_extends [of route_id route_file_path "workout_routes conn"
        "map fst R"] by blast
  have p: "route_file_path ` set (map fst R) = path_join d ` set ms"
    using paths by (metis list.set_map)
  have "route_file_path ` set new \<subseteq> path_join d ` set ms"
    using new(2) p by blast
  moreover have "path_join d ` set ms \<subseteq> route_file_path ` set ?T"
    using sup p by simp
  ultimately have "route_file_path ` set ?T =
      route_file_path ` set (workout_routes conn) \<union> path_join d ` set ms"
    unfolding new(1) by auto
  then show ?thesis
    by (simp add: R_def n0_def)
qed

lemma ok_selected_split:
  assumes "ok_selected fs d skip existing names \<noteq> filter (route_selected fs d skip existing) names"
  shows "\<exists>b rest. filter (route_selected fs d skip existing) names =
           ok_selected fs d skip existing names @ b # rest \<and> \<not> route_ok fs d b"
proof -
  let ?sel = "filter (route_selected fs d skip existing) names"
  have d: "dropWhile (route_ok fs d) ?sel \<noteq> []"
    using assms unfolding ok_selected_def
    by (metis append_Nil2 takeWhile_dropWhile_id)
  then obtain b rest where b: "dropWhile (route_ok fs d) ?sel = b # rest"
    by (cases "dropWhile (route_ok fs d) ?sel") auto
  have "\<not> route_ok fs d b"
    using hd_dropWhile [OF d] b by simp
  moreover have "?sel = ok_selected fs d skip existing names @ b # rest"
    unfolding ok_selected_def b [symmetric] by simp
  ultimately show ?thesis
    by blast
qed

lemma route_ok_path: "path_join d m = path_join d b \<Longrightarrow> route_ok fs d m = route_ok fs d b"
  by (simp add: route_ok_def)

lemma points_total_filter: "points_total fs d (filter Q zs) \<le> points_total fs d zs"
  by (induction zs) auto

lemma import_workout_routes_rerun_aborted:
  assumes "snd (import_workout_routes fs conn d True) = Inl e"
  shows "\<exists>e'. import_workout_routes fs (fst (import_workout_routes fs conn d True)) d True =
           (fst (import_workout_routes fs conn d True), Inl e')"
proof -
  obtain names where Some: "listdir fs d = Some names"
    using assms by (cases "listdir fs d") (simp_all add: import_workout_routes_def)
  define ex0 where "ex0 = set (map route_file_path (workout_routes conn))"
  define n0 where "n0 = next_id (Some (map route_id (workout_routes conn)))"
  define st0 where "st0 = \<lparr>rs_conn = conn, rs_route_rows = [], rs_point_rows = [],
     rs_route_id = n0, rs_inserted = 0\<rparr>"
  have st0: "rs_route_id st0 = n0" "rs_conn st0 = conn" "rs_point_rows st0 = []"
    "flushed st0 rows = flush_routes conn (map fst rows) (concat (map snd rows))" for rows
    by (simp_all add: st0_def flushed_def)
  define L where "L = sort names"
  obtain st raised where l: "routes_loop fs d True ex0 st0 L = (st, raised)"
    by (cases "routes_loop fs d True ex0 st0 L") auto
  have i1: "import_workout_routes fs conn d True =
      (case raised of Some x \<Rightarrow> (rs_conn st, Inl x)
       | None \<Rightarrow> (flush_routes (rs_conn st) (rs_route_rows st) (rs_point_rows st),
                   Inr (rs_inserted st)))"
  proof -
    have e: "(if True then list_existing (Some (map route_file_path (workout_routes conn)))
        else {}) = ex0"
      by (simp add: ex0_def list_existing_def)
    show ?thesis
      by (simp only: import_workout_routes_def Some option.case Let_def e n0_def [symmetric]
          st0_def [symmetric] L_def [symmetric] l prod.case)
  qed
  have raised: "raised \<noteq> None"
    using assms i1 by (cases raised) simp_all
  define s1 where "s1 = rs_conn st"
  have f1: "fst (import_workout_routes fs conn d True) = s1"
    using raised i1 by (cases raised) (simp_all add: s1_def)
  let ?sel1 = "filter (route_selected fs d True ex0) L"
  let ?oks1 = "ok_selected fs d True ex0 L"
  have ne1: "?oks1 \<noteq> ?sel1"
    using routes_loop_view [of fs d True ex0 st0 L] raised by (simp add: l)
  obtain ms zs where mz: "?oks1 = ms @ zs"
    and c1: "if ms = []
       then rs_conn st = rs_conn st0 \<and> (zs = [] \<or> length (rs_point_rows st0) + points_total fs d zs < 20000)
       else rs_conn st = flushed st0 (routes_of_files fs d (rs_route_id st0) ms) \<and>
            20000 \<le> length (rs_point_rows st0) + points_total fs d ms \<and>
            points_total fs d zs < 20000"
    using routes_loop_buffer [of fs d True ex0 L st0, unfolded l fst_conv] by blast
  have s1: "s1 = flush_routes conn (map fst (routes_of_files fs d n0 ms))
      (concat (map snd (routes_of_files fs d n0 ms)))"
    using c1 by (cases "ms = []") (simp_all add: s1_def st0)
  have tz: "points_total fs d zs < 20000"
    using c1 by (cases "ms = []") (auto simp: st0)
  have okmz: "\<forall>n\<in>set (ms @ zs). route_ok fs d n"
    using ok_selected_ok [of _ fs d True ex0 L] mz by auto
  then have okm: "\<forall>n\<in>set ms. route_ok fs d n" and okz: "\<forall>n\<in>set zs. route_ok fs d n"
    by simp_all
  define ex1 where "ex1 = set (map route_file_path (workout_routes s1))"
  have ex1: "ex1 = ex0 \<union> path_join d ` set ms"
    unfolding ex1_def s1 n0_def ex0_def by (rule flush_routes_paths [OF okm])
  define Q where "Q = (\<lambda>n. path_join d n \<notin> path_join d ` set ms)"
  have sq: "route_selected fs d True ex1 n \<longleftrightarrow> route_selected fs d True ex0 n \<and> Q n" for n
    by (auto simp: route_selected_def ex1 Q_def)
  obtain b rest where br: "?sel1 = (ms @ zs) @ b # rest" "\<not> route_ok fs d b"
    using ok_selected_split [OF ne1] unfolding mz by blast
  have qm: "filter Q ms = []"
    by (auto simp: filter_empty_conv Q_def)
  have qb: "Q b"
  proof (rule ccontr)
    assume "\<not> Q b"
    then obtain m where "m \<in> set ms" "path_join d b = path_join d m"
      by (auto simp: Q_def)
    then show False
      using okm br(2) route_ok_path [of d m b fs] by auto
  qed
  let ?sel2 = "filter (route_selected fs d True ex1) L"
  have "route_selected fs d True ex1 = (\<lambda>n. route_selected fs d True ex0 n \<and> Q n)"
    using sq by auto
  then have "?sel2 = filter Q ?sel1"
    by simp
  then have sel2: "?sel2 = filter Q zs @ b # filter Q rest"
    unfolding br(1) using qm qb by simp
  have okq: "\<forall>n\<in>set (filter Q zs). route_ok fs d n"
    using okz by simp
  have oks2: "ok_selected fs d True ex1 L = filter Q zs"
    unfolding ok_selected_def sel2 using okq br(2)
    by (simp add: takeWhile_tail takeWhile_eq_all_conv [THEN iffD2])
  have ne2: "ok_selected fs d True ex1 L \<noteq> ?sel2"
    unfolding oks2 sel2 by simp
  define n1 where "n1 = next_id (Some (map route_id (workout_routes s1)))"
  define st0' where "st0' = \<lparr>rs_conn = s1, rs_route_rows = [], rs_point_rows = [],
     rs_route_id = n1, rs_inserted = 0\<rparr>"
  have st0': "rs_conn st0' = s1" "rs_point_rows st0' = []"
    by (simp_all add: st0'_def)
  obtain st2 raised2 where l2: "routes_loop fs d True ex1 st0' L = (st2, raised2)"
    by (cases "routes_loop fs d True ex1 st0' L") auto
  have i2: "import_workout_routes fs s1 d True =
      (case raised2 of Some x \<Rightarrow> (rs_conn st2, Inl x)
       | None \<Rightarrow> (flush_routes (rs_conn st2) (rs_route_rows st2) (rs_point_rows st2),
                   Inr (rs_inserted st2)))"
  proof -
    have e: "(if True then list_existing (Some (map route_file_path (workout_routes s1)))
        else {}) = ex1"
      by (simp add: ex1_def list_existing_def)
    show ?thesis
      by (simp only: import_workout_routes_def Some option.case Let_def e n1_def [symmetric]
          st0'_def [symmetric] L_def [symmetric] l2 prod.case)
  qed
  have "raised2 \<noteq> None"
    using routes_loop_view [of fs d True ex1 st0' L] ne2 by (simp add: l2)
  then obtain e' where e': "raised2 = Some e'"
    by (cases raised2) auto
  obtain ms2 zs2 where mz2: "ok_selected fs d True ex1 L = ms2 @ zs2"
    and c2: "if ms2 = [] then rs_conn st2 = rs_conn st0' \<and>
          (zs2 = [] \<or> length (rs_point_rows st0') + points_total fs d zs2 < 20000)
       else rs_conn st2 = flushed st0' (routes_of_files fs d (rs_route_id st0') ms2) \<and>
            20000 \<le> length (rs_point_rows st0') + points_total fs d ms2 \<and>
            points_total fs d zs2 < 20000"
    using routes_loop_buffer [of fs d True ex1 L st0', unfolded l2 fst_conv] by blast
  have "points_total fs d ms2 \<le> points_total fs d (filter Q zs)"
    using mz2 oks2 by (metis le_add1 points_total_simps(3))
  then have "points_total fs d ms2 < 20000"
    using points_total_filter [of fs d Q zs] tz by linarith
  then have "ms2 = []"
    using c2 by (cases "ms2 = []") (auto simp: st0')
  then have "rs_conn st2 = s1"
    using c2 by (simp add: st0')
  then have "import_workout_routes fs s1 d True = (s1, Inl e')"
    by (simp add: i2 e')
  then show ?thesis
    unfolding f1 by blast
qed

lemma flush_ecg_other [simp]:
  "workout_routes (flush_ecg c a b) = workout_routes c"
  "workout_route_points (flush_ecg c a b) = workout_route_points c"
  "ecg_records (flush_ecg c a b) =
     foldl (insert_or_ignore ecg_id ecg_file_path) (ecg_records c) a"
  "ecg_samples (flush_ecg c a b) = ecg_samples c @ b"
  by (simp_all add: flush_ecg_def)

lemma import_ecg_tables:
  "workout_routes (fst (import_ecg dv fs conn d skip)) = workout_routes conn"
  "workout_route_points (fst (import_ecg dv fs conn d skip)) = workout_route_points conn"
  by (simp_all add: import_ecg_eq Let_def split: option.splits)

lemma import_ecg_extends:
  "\<exists>new. ecg_records (fst (import_ecg dv fs conn d skip)) = ecg_records conn @ new \<and>
         distinct (map ecg_file_path new) \<and>
         set (map ecg_file_path new) \<inter> set (map ecg_file_path (ecg_records conn)) = {}"
proof (cases "listdir fs d")
  case None
  then show ?thesis by (simp add: import_ecg_eq)
next
  case (Some names)
  show ?thesis
    using foldl_insert_or_ignore_extends [of ecg_id ecg_file_path "ecg_records conn"]
    by (simp add: import_ecg_eq Some Let_def) blast
qed

lemma import_ecg_covers:
  assumes "listdir fs d = Some names" "n \<in> set names" "csv_name n"
    "snd (parse_ecg_csv dv (csv_rows fs (path_join d n))) \<noteq> []"
  shows "path_join d n \<in> set (map ecg_file_path
           (ecg_records (fst (import_ecg dv fs conn d skip))))"
proof -
  define existing where
    "existing = (if skip then set (map ecg_file_path (ecg_records conn)) else {})"
  define n0 where "n0 = next_id (Some (map ecg_id (ecg_records conn)))"
  define sel where "sel = filter (ecg_selected dv fs d skip existing) (sort names)"
  define R where "R = ecgs_of_files dv fs d n0 sel"
  have t: "ecg_records (fst (import_ecg dv fs conn d skip)) =
      foldl (insert_or_ignore ecg_id ecg_file_path) (ecg_records conn) (map fst R)"
    by (simp add: import_ecg_eq assms(1) Let_def existing_def n0_def sel_def R_def)
  show ?thesis
  proof (cases "ecg_selected dv fs d skip existing n")
    case True
    then have "n \<in> set sel"
      using assms(2) by (simp add: sel_def)
    then have "path_join d n \<in> set (map (ecg_file_path \<circ> fst) R)"
      by (simp add: R_def ecgs_of_files_paths)
    then have p: "path_join d n \<in> ecg_file_path ` set (map fst R)"
      by (simp add: image_comp)
    have ids: "map ecg_id (map fst R) = map (\<lambda>i. n0 + int i) [0..<length sel]"
      using ecgs_of_files_ids [where eid = n0 and ns = sel] by (simp add: R_def)
    have lt: "\<And>x. x \<in> set (map ecg_id (ecg_records conn)) \<Longrightarrow> x < n0"
      unfolding n0_def by (rule next_id_fresh)
    have "ecg_file_path ` set (map fst R) \<subseteq>
        ecg_file_path ` set (foldl (insert_or_ignore ecg_id ecg_file_path)
          (ecg_records conn) (map fst R))"
      by (rule foldl_insert_or_ignore_paths) (simp_all only: ids fresh_ids [OF lt])
    then show ?thesis
      using p t by auto
  next
    case False
    then have "path_join d n \<in> set (map ecg_file_path (ecg_records conn))"
      using assms(3,4) by (auto simp: ecg_selected_def existing_def split: if_splits)
    moreover obtain new where
      "ecg_records (fst (import_ecg dv fs conn d skip)) = ecg_records conn @ new"
      using import_ecg_extends by blast
    ultimately show ?thesis by auto
  qed
qed

lemma import_ecg_rerun:
  assumes "ecg_records c = ecg_records (fst (import_ecg dv fs conn d skip))"
  shows "import_ecg dv fs c d True = (c, 0)"
proof (cases "listdir fs d")
  case None
  then show ?thesis by (simp add: import_ecg_eq)
next
  case (Some names)
  have "\<not> ecg_selected dv fs d True (set (map ecg_file_path (ecg_records c))) n"
    if "n \<in> set (sort names)" for n
  proof
    assume s: "ecg_selected dv fs d True (set (map ecg_file_path (ecg_records c))) n"
    then have "csv_name n" "snd (parse_ecg_csv dv (csv_rows fs (path_join d n))) \<noteq> []"
      by (simp_all add: ecg_selected_def)
    then have "path_join d n \<in> set (map ecg_file_path (ecg_records c))"
      using import_ecg_covers [OF Some, where n = n and conn = conn and skip = skip] that assms
      by simp
    then show False
      using s by (simp add: ecg_selected_def)
  qed
  then have "filter (ecg_selected dv fs d True (set (map ecg_file_path (ecg_records c))))
      (sort names) = []"
    by (simp add: filter_empty_conv)
  then show ?thesis
    by (simp add: import_ecg_eq Some Let_def)
qed

lemma postprocess_fst:
  "fst (postprocess dv fs s0 rd ed skip nr ne) =
     (if nr then (if ne then s0 else fst (import_ecg dv fs s0 ed skip))
      else if isl (snd (import_workout_routes fs s0 rd skip)) \<or> ne
        then fst (import_workout_routes fs s0 rd skip)
        else fst (import_ecg dv fs (fst (import_workout_routes fs s0 rd skip)) ed skip))"
  by (cases "snd (import_workout_routes fs s0 rd skip)")
    (simp_all add: postprocess_def case_prod_unfold Let_def)

lemma postprocess_rerun:
  assumes "snd (postprocess dv fs s0 rd ed skip nr ne) = Inr (n, m)"
  shows "postprocess dv fs (fst (postprocess dv fs s0 rd ed skip nr ne)) rd ed True nr ne =
     (fst (postprocess dv fs s0 rd ed skip nr ne), Inr (0, 0))"
proof -
  define s1 where "s1 = (if nr then s0 else fst (import_workout_routes fs s0 rd skip))"
  define s2 where "s2 = (if ne then s1 else fst (import_ecg dv fs s1 ed skip))"
  have k: "\<exists>k. snd (import_workout_routes fs s0 rd skip) = Inr k" if "\<not> nr"
    using assms that
    by (cases "snd (import_workout_routes fs s0 rd skip)")
      (simp_all add: postprocess_def case_prod_unfold Let_def)
  have f: "fst (postprocess dv fs s0 rd ed skip nr ne) = s2"
    using k by (auto simp: postprocess_fst s1_def s2_def)
  have r: "import_workout_routes fs s2 rd True = (s2, Inr 0)" if nnr: "\<not> nr"
  proof -
    obtain j where "snd (import_workout_routes fs s0 rd skip) = Inr j"
      using k [OF nnr] by blast
    then show ?thesis
      by (rule import_workout_routes_rerun [rotated])
        (simp add: s2_def s1_def import_ecg_tables nnr)
  qed
  have e: "\<not> ne \<Longrightarrow> import_ecg dv fs s2 ed True = (s2, 0)"
    by (rule import_ecg_rerun [where conn = s1 and skip = skip]) (simp add: s2_def)
  show ?thesis
    unfolding f by (cases nr; cases ne) (simp_all add: postprocess_def Let_def r e)
qed

lemma postprocess_rerun_skip:
  "fst (postprocess dv fs (fst (postprocess dv fs s0 rd ed True nr ne)) rd ed True nr ne) =
     fst (postprocess dv fs s0 rd ed True nr ne)"
proof (cases "snd (postprocess dv fs s0 rd ed True nr ne)")
  case (Inr c)
  obtain n m where "c = (n, m)"
    by (cases c) auto
  then show ?thesis
    using postprocess_rerun [of dv fs s0 rd ed True nr ne n m] Inr by simp
next
  case (Inl e)
  have nr: "\<not> nr"
    using Inl by (cases nr) (simp_all add: postprocess_def case_prod_unfold Let_def)
  have r: "snd (import_workout_routes fs s0 rd True) = Inl e"
    using Inl nr
    by (cases "snd (import_workout_routes fs s0 rd True)")
      (simp_all add: postprocess_def case_prod_unfold Let_def)
  have f: "fst (postprocess dv fs s0 rd ed True nr ne) = fst (import_workout_routes fs s0 rd True)"
    using nr r by (simp add: postprocess_fst)
  obtain e' where "import_workout_routes fs (fst (import_workout_routes fs s0 rd True)) rd True =
      (fst (import_workout_routes fs s0 rd True), Inl e')"
    using import_workout_routes_rerun_aborted [OF r] by blast
  then show ?thesis
    unfolding f using nr by (simp add: postprocess_def)
qed

lemma postprocess_routes_extend:
  "\<exists>new. workout_routes (fst (postprocess dv fs s0 rd ed skip nr ne)) = workout_routes s0 @ new \<and>
         distinct (map route_file_path new) \<and>
         set (map route_file_path new) \<inter> set (map route_file_path (workout_routes s0)) = {}"
proof -
  have "workout_routes (fst (postprocess dv fs s0 rd ed skip nr ne)) =
      (if nr then workout_routes s0 else workout_routes (fst (import_workout_routes fs s0 rd skip)))"
    by (simp add: postprocess_fst import_ecg_tables)
  then show ?thesis
    using import_workout_routes_extends [of fs s0 rd skip] by (cases nr) auto
qed

lemma postprocess_ecg_extend:
  "\<exists>new. ecg_records (fst (postprocess dv fs s0 rd ed skip nr ne)) = ecg_records s0 @ new \<and>
         distinct (map ecg_file_path new) \<and>
         set (map ecg_file_path new) \<inter> set (map ecg_file_path (ecg_records s0)) = {}"
proof -
  define s1 where "s1 = (if nr then s0 else fst (import_workout_routes fs s0 rd skip))"
  have s1: "ecg_records s1 = ecg_records s0"
    by (simp add: s1_def import_workout_routes_tables)
  have "ecg_records (fst (postprocess dv fs s0 rd ed skip nr ne)) = ecg_records s1 \<or>
      ecg_records (fst (postprocess dv fs s0 rd ed skip nr ne)) =
        ecg_records (fst (import_ecg dv fs s1 ed skip))"
    by (simp add: postprocess_fst s1_def)
  then show ?thesis
    using import_ecg_extends [of dv fs s1 ed skip] by (auto simp: s1)
qed

lemma path_join_r_a: "path_join (ustr ''r'') (ustr ''a.gpx'') = ustr ''r/a.gpx''"
  by (simp add: path_join_def ustr_def)

lemma gpx_name_a: "endswith (lower (ustr ''a.gpx'')) (ustr ''.gpx'')"
  by (simp add: endswith_def lower_def ustr_def)

lemma sort_b_c: "sort [ustr ''b.gpx'', ustr ''c.gpx''] = [ustr ''b.gpx'', ustr ''c.gpx'']"
  by (simp add: ustr_def)

lemma path_join_r_b: "path_join (ustr ''r'') (ustr ''b.gpx'') = ustr ''r/b.gpx''"
  by (simp add: path_join_def ustr_def)

lemma path_join_r_c: "path_join (ustr ''r'') (ustr ''c.gpx'') = ustr ''r/c.gpx''"
  by (simp add: path_join_def ustr_def)

lemma gpx_name_b_c:
  "endswith (lower (ustr ''b.gpx'')) (ustr ''.gpx'')"
  "endswith (lower (ustr ''c.gpx'')) (ustr ''.gpx'')"
  by (simp_all add: endswith_def lower_def ustr_def)

lemma path_b_neq_c: "ustr ''r/c.gpx'' \<noteq> ustr ''r/b.gpx''" "ustr ''r/b.gpx'' \<noteq> ustr ''r/c.gpx''"
  by (simp_all add: ustr_def)

text \<open>
  Claim C4, as stated, fails when the first run did not complete. Here the route table
  holds \<^verbatim>\<open>r/b.gpx\<close> and the directory holds \<^verbatim>\<open>b.gpx\<close>, whose second point has
  the latitude \<^verbatim>\<open>inf\<close>, and \<^verbatim>\<open>c.gpx\<close>. A run with skip-existing disabled reads
  \<^verbatim>\<open>b.gpx\<close> first and ends in \<^verbatim>\<open>ValueError\<close>, the store as it was; the second run,
  with skip-existing enabled, skips \<^verbatim>\<open>b.gpx\<close> and adds a route row and a point row
  for \<^verbatim>\<open>c.gpx\<close>.
\<close>

theorem rerun_after_aborted_run_counterexample:
  "postprocess ascii_digit
     \<lparr>listdir = (\<lambda>d. if d = ustr ''r'' then Some [ustr ''b.gpx'', ustr ''c.gpx''] else None),
      gpx_points = (\<lambda>p. if p = ustr ''r/b.gpx''
                          then [(Some (Finite 0), Some (Finite 0), None, None),
                                (Some PosInf, Some (Finite 0), None, None)]
                          else [(Some (Finite 1), Some (Finite 2), None, None)]),
      csv_rows = (\<lambda>p. [])\<rparr>
     \<lparr>workout_routes =
        [\<lparr>route_id = 1, route_file_path = ustr ''r/b.gpx'', start_time = None, end_time = None,
          point_count = 0, distance_km = Some (Finite 0), min_lat = None, max_lat = None,
          min_lon = None, max_lon = None\<rparr>],
      workout_route_points = [], ecg_records = [], ecg_samples = []\<rparr>
     (ustr ''r'') (ustr ''e'') False False False =
   (\<lparr>workout_routes =
        [\<lparr>route_id = 1, route_file_path = ustr ''r/b.gpx'', start_time = None, end_time = None,
          point_count = 0, distance_km = Some (Finite 0), min_lat = None, max_lat = None,
          min_lon = None, max_lon = None\<rparr>],
      workout_route_points = [], ecg_records = [], ecg_samples = []\<rparr>, Inl ValueError) \<and>
   postprocess ascii_digit
     \<lparr>listdir = (\<lambda>d. if d = ustr ''r'' then Some [ustr ''b.gpx'', ustr ''c.gpx''] else None),
      gpx_points = (\<lambda>p. if p = ustr ''r/b.gpx''
                          then [(Some (Finite 0), Some (Finite 0), None, None),
                                (Some PosInf, Some (Finite 0), None, None)]
                          else [(Some (Finite 1), Some (Finite 2), None, None)]),
      csv_rows = (\<lambda>p. [])\<rparr>
     \<lparr>workout_routes =
        [\<lparr>route_id = 1, route_file_path = ustr ''r/b.gpx'', start_time = None, end_time = None,
          point_count = 0, distance_km = Some (Finite 0), min_lat = None, max_lat = None,
          min_lon = None, max_lon = None\<rparr>],
      workout_route_points = [], ecg_records = [], ecg_samples = []\<rparr>
     (ustr ''r'') (ustr ''e'') True False False =
   (\<lparr>workout_routes =
        [\<lparr>route_id = 1, route_file_path = ustr ''r/b.gpx'', start_time = None, end_time = None,
          point_count = 0, distance_km = Some (Finite 0), min_lat = None, max_lat = None,
          min_lon = None, max_lon = None\<rparr>,
         \<lparr>route_id = 2, route_file_path = ustr ''r/c.gpx'', start_time = None, end_time = None,
          point_count = 1, distance_km = Some (Finite 0), min_lat = Some (Finite 1),
          max_lat = Some (Finite 1), min_lon = Some (Finite 2), max_lon = Some (Finite 2)\<rparr>],
      workout_route_points = [(2, 0, Some (Finite 1), Some (Finite 2), None, None)],
      ecg_records = [], ecg_samples = []\<rparr>, Inr (1, 0))"
proof -
  have d: "ustr ''e'' \<noteq> ustr ''r''"
    by (simp add: ustr_def)
  show ?thesis
    by (simp add: postprocess_def import_workout_routes_def import_ecg_def d next_id_def
        route_file_step_def gpx_name_b_c path_join_r_b path_join_r_c path_b_neq_c sort_b_c
        list_existing_def route_of_file_def map_filter_simps haversine_km_inf
        flush_routes_def insert_or_ignore_def some_min_def some_max_def py_min_def py_max_def
        sql_real_def sql_real_opt_def Let_def)
qed

text \<open>
  Claim C4, amended. After a run of the stage that completed (with either setting of
  skip-existing), a second run with skip-existing enabled over the same directories
  leaves the store as it is and reports no file ingested; after a run with
  skip-existing enabled, completed or ended by an exception, a second such run leaves
  the store as it is; and in every run the rows already in the route and ECG tables stay
  where they were, unmodified, the rows added carrying paths that were not stored before
  (one row per path).
\<close>

theorem rerun_with_skip_existing_adds_nothing:
  "(snd (postprocess dv fs s0 rd ed skip nr ne) = Inr (n, m) \<longrightarrow>
      postprocess dv fs (fst (postprocess dv fs s0 rd ed skip nr ne)) rd ed True nr ne =
        (fst (postprocess dv fs s0 rd ed skip nr ne), Inr (0, 0))) \<and>
   fst (postprocess dv fs (fst (postprocess dv fs s0 rd ed True nr ne)) rd ed True nr ne) =
     fst (postprocess dv fs s0 rd ed True nr ne) \<and>
   (\<exists>new. workout_routes (fst (postprocess dv fs s0 rd ed skip nr ne)) = workout_routes s0 @ new \<and>
          distinct (map route_file_path new) \<and>
          set (map route_file_path new) \<inter> set (map route_file_path (workout_routes s0)) = {}) \<and>
   (\<exists>new. ecg_records (fst (postprocess dv fs s0 rd ed skip nr ne)) = ecg_records s0 @ new \<and>
          distinct (map ecg_file_path new) \<and>
          set (map ecg_file_path new) \<inter> set (map ecg_file_path (ecg_records s0)) = {})"
  using postprocess_rerun [of dv fs s0 rd ed skip nr ne n m]
    postprocess_rerun_skip [of dv fs s0 rd ed nr ne]
    postprocess_routes_extend [of dv fs s0 rd ed skip nr ne]
    postprocess_ecg_extend [of dv fs s0 rd ed skip nr ne]
  by blast

theorem rerun_with_skip_existing_witness:
  "snd (postprocess ascii_digit
     \<lparr>listdir = (\<lambda>d. if d = ustr ''r'' then Some [ustr ''a.gpx''] else None),
      gpx_points = (\<lambda>p. [(Some (Finite 1), Some (Finite 2), None, None)]),
      csv_rows = (\<lambda>p. [])\<rparr>
     \<lparr>workout_routes = [], workout_route_points = [], ecg_records = [], ecg_samples = []\<rparr>
     (ustr ''r'') (ustr ''e'') False False False) = Inr (1, 0) \<and>
   postprocess ascii_digit
     \<lparr>listdir = (\<lambda>d. if d = ustr ''r'' then Some [ustr ''a.gpx''] else None),
      gpx_points = (\<lambda>p. [(Some (Finite 1), Some (Finite 2), None, None)]),
      csv_rows = (\<lambda>p. [])\<rparr>
     (fst (postprocess ascii_digit
       \<lparr>listdir = (\<lambda>d. if d = ustr ''r'' then Some [ustr ''a.gpx''] else None),
        gpx_points = (\<lambda>p. [(Some (Finite 1), Some (Finite 2), None, None)]),
        csv_rows = (\<lambda>p. [])\<rparr>
       \<lparr>workout_routes = [], workout_route_points = [], ecg_records = [], ecg_samples = []\<rparr>
       (ustr ''r'') (ustr ''e'') False False False))
     (ustr ''r'') (ustr ''e'') True False False =
   (fst (postprocess ascii_digit
       \<lparr>listdir = (\<lambda>d. if d = ustr ''r'' then Some [ustr ''a.gpx''] else None),
        gpx_points = (\<lambda>p. [(Some (Finite 1), Some (Finite 2), None, None)]),
        csv_rows = (\<lambda>p. [])\<rparr>
       \<lparr>workout_routes = [], workout_route_points = [], ecg_records = [], ecg_samples = []\<rparr>
       (ustr ''r'') (ustr ''e'') False False False), Inr (0, 0))"
proof -
  let ?fs = "\<lparr>listdir = (\<lambda>d. if d = ustr ''r'' then Some [ustr ''a.gpx''] else None),
      gpx_points = (\<lambda>p. [(Some (Finite 1), Some (Finite 2), None, None)]),
      csv_rows = (\<lambda>p. [])\<rparr>"
  let ?s0 = "\<lparr>workout_routes = [], workout_route_points = [], ecg_records = [], ecg_samples = []\<rparr>"
  have d: "ustr ''e'' \<noteq> ustr ''r''"
    by (simp add: ustr_def)
  have h: "snd (postprocess ascii_digit ?fs ?s0 (ustr ''r'') (ustr ''e'') False False False) =
      Inr (1, 0)"
    by (simp add: postprocess_def import_workout_routes_def import_ecg_def d next_id_def
        route_file_step_def gpx_name_a path_join_r_a route_of_file_def Let_def)
  show ?thesis
    using h rerun_with_skip_existing_adds_nothing
      [of ascii_digit ?fs ?s0 "ustr ''r''" "ustr ''e''" False False False 1 0]
    by blast
qed

lemma postprocess_keeps_route_rows:
  assumes "p \<in> set (map route_file_path (workout_routes s0))"
  shows "filter (\<lambda>r. route_file_path r = p) (workout_routes (fst (postprocess dv fs s0 rd ed skip nr ne))) =
         filter (\<lambda>r. route_file_path r = p) (workout_routes s0)"
proof -
  obtain new where n: "workout_routes (fst (postprocess dv fs s0 rd ed skip nr ne)) = workout_routes s0 @ new"
    "set (map route_file_path new) \<inter> set (map route_file_path (workout_routes s0)) = {}"
    using postprocess_routes_extend by blast
  have "filter (\<lambda>r. route_file_path r = p) new = []"
    using n(2) assms by (auto simp: filter_empty_conv)
  then show ?thesis
    by (simp add: n(1))
qed

lemma postprocess_keeps_ecg_rows:
  assumes "p \<in> set (map ecg_file_path (ecg_records s0))"
  shows "filter (\<lambda>r. ecg_file_path r = p) (ecg_records (fst (postprocess dv fs s0 rd ed skip nr ne))) =
         filter (\<lambda>r. ecg_file_path r = p) (ecg_records s0)"
proof -
  obtain new where n: "ecg_records (fst (postprocess dv fs s0 rd ed skip nr ne)) = ecg_records s0 @ new"
    "set (map ecg_file_path new) \<inter> set (map ecg_file_path (ecg_records s0)) = {}"
    using postprocess_ecg_extend by blast
  have "filter (\<lambda>r. ecg_file_path r = p) new = []"
    using n(2) assms by (auto simp: filter_empty_conv)
  then show ?thesis
    by (simp add: n(1))
qed

text \<open>
  Claim C6, amended. With skip-existing disabled, re-ingesting a file whose path is
  already in the route or ECG table produces no new row for it: the rows stored under
  that path after the run are the rows stored under it before.
\<close>

theorem reingest_existing_path_adds_no_row:
  "(p \<in> set (map route_file_path (workout_routes s0)) \<longrightarrow>
      filter (\<lambda>r. route_file_path r = p)
        (workout_routes (fst (postprocess dv fs s0 rd ed False nr ne))) =
      filter (\<lambda>r. route_file_path r = p) (workout_routes s0)) \<and>
   (p \<in> set (map ecg_file_path (ecg_records s0)) \<longrightarrow>
      filter (\<lambda>r. ecg_file_path r = p)
        (ecg_records (fst (postprocess dv fs s0 rd ed False nr ne))) =
      filter (\<lambda>r. ecg_file_path r = p) (ecg_records s0))"
  using postprocess_keeps_route_rows postprocess_keeps_ecg_rows by blast

text \<open>
  Claim C6, as stated, fails: \<^verbatim>\<open>file_path\<close> is \<^verbatim>\<open>UNIQUE\<close> and the insert is
  \<^verbatim>\<open>INSERT OR IGNORE\<close>, so the row built for a path already stored is dropped. Here
  the route table holds \<^verbatim>\<open>r/a.gpx\<close> under id 1 and the file is ingested again with
  skip-existing disabled: the run counts the file and stores its point under the new id 2,
  but the route table still holds the old row alone.
\<close>

theorem reingest_existing_path_counterexample:
  "postprocess ascii_digit
     \<lparr>listdir = (\<lambda>d. if d = ustr ''r'' then Some [ustr ''a.gpx''] else None),
      gpx_points = (\<lambda>p. [(Some (Finite 1), Some (Finite 2), None, None)]),
      csv_rows = (\<lambda>p. [])\<rparr>
     \<lparr>workout_routes =
        [\<lparr>route_id = 1, route_file_path = ustr ''r/a.gpx'', start_time = None, end_time = None,
          point_count = 1, distance_km = Some (Finite 0), min_lat = Some (Finite 0), max_lat = Some (Finite 0),
          min_lon = Some (Finite 0), max_lon = Some (Finite 0)\<rparr>],
      workout_route_points = [(1, 0, Some (Finite 0), Some (Finite 0), None, None)],
      ecg_records = [], ecg_samples = []\<rparr>
     (ustr ''r'') (ustr ''e'') False False False =
   (\<lparr>workout_routes =
        [\<lparr>route_id = 1, route_file_path = ustr ''r/a.gpx'', start_time = None, end_time = None,
          point_count = 1, distance_km = Some (Finite 0), min_lat = Some (Finite 0), max_lat = Some (Finite 0),
          min_lon = Some (Finite 0), max_lon = Some (Finite 0)\<rparr>],
      workout_route_points =
        [(1, 0, Some (Finite 0), Some (Finite 0), None, None), (2, 0, Some (Finite 1), Some (Finite 2), None, None)],
      ecg_records = [], ecg_samples = []\<rparr>, Inr (1, 0))"
proof -
  have d: "ustr ''e'' \<noteq> ustr ''r''"
    by (simp add: ustr_def)
  show ?thesis
    by (simp add: postprocess_def import_workout_routes_def import_ecg_def d next_id_def
        route_file_step_def gpx_name_a path_join_r_a route_of_file_def map_filter_simps
        flush_routes_def insert_or_ignore_def some_min_def some_max_def py_min_def py_max_def
        sql_real_def sql_real_opt_def Let_def)
qed

theorem reingest_existing_path_witness:
  "ustr ''r/a.gpx'' \<in> set (map route_file_path (workout_routes
     \<lparr>workout_routes =
        [\<lparr>route_id = 1, route_file_path = ustr ''r/a.gpx'', start_time = None, end_time = None,
          point_count = 1, distance_km = Some (Finite 0), min_lat = Some (Finite 0), max_lat = Some (Finite 0),
          min_lon = Some (Finite 0), max_lon = Some (Finite 0)\<rparr>],
      workout_route_points = [(1, 0, Some (Finite 0), Some (Finite 0), None, None)],
      ecg_records =
        [\<lparr>ecg_id = 1, ecg_file_path = ustr ''e/x.csv'', recorded_date = None,
          classification = None, symptoms = None, sample_rate_hz = None, lead = None,
          unit_col = None, device = None, software_version = None, extra_json = []\<rparr>],
      ecg_samples = [(1, 0, 5)]\<rparr>)) \<and>
   filter (\<lambda>r. route_file_path r = ustr ''r/a.gpx'') (workout_routes (fst (postprocess ascii_digit
     \<lparr>listdir = (\<lambda>d. if d = ustr ''r'' then Some [ustr ''a.gpx'']
                     else if d = ustr ''e'' then Some [ustr ''x.csv''] else None),
      gpx_points = (\<lambda>p. [(Some (Finite 1), Some (Finite 2), None, None)]),
      csv_rows = (\<lambda>p. [[ustr ''7'']])\<rparr>
     \<lparr>workout_routes =
        [\<lparr>route_id = 1, route_file_path = ustr ''r/a.gpx'', start_time = None, end_time = None,
          point_count = 1, distance_km = Some (Finite 0), min_lat = Some (Finite 0), max_lat = Some (Finite 0),
          min_lon = Some (Finite 0), max_lon = Some (Finite 0)\<rparr>],
      workout_route_points = [(1, 0, Some (Finite 0), Some (Finite 0), None, None)],
      ecg_records =
        [\<lparr>ecg_id = 1, ecg_file_path = ustr ''e/x.csv'', recorded_date = None,
          classification = None, symptoms = None, sample_rate_hz = None, lead = None,
          unit_col = None, device = None, software_version = None, extra_json = []\<rparr>],
      ecg_samples = [(1, 0, 5)]\<rparr>
     (ustr ''r'') (ustr ''e'') False False False))) =
     [\<lparr>route_id = 1, route_file_path = ustr ''r/a.gpx'', start_time = None, end_time = None,
       point_count = 1, distance_km = Some (Finite 0), min_lat = Some (Finite 0), max_lat = Some (Finite 0),
       min_lon = Some (Finite 0), max_lon = Some (Finite 0)\<rparr>] \<and>
   ustr ''e/x.csv'' \<in> set (map ecg_file_path (ecg_records
     \<lparr>workout_routes =
        [\<lparr>route_id = 1, route_file_path = ustr ''r/a.gpx'', start_time = None, end_time = None,
          point_count = 1, distance_km = Some (Finite 0), min_lat = Some (Finite 0), max_lat = Some (Finite 0),
          min_lon = Some (Finite 0), max_lon = Some (Finite 0)\<rparr>],
      workout_route_points = [(1, 0, Some (Finite 0), Some (Finite 0), None, None)],
      ecg_records =
        [\<lparr>ecg_id = 1, ecg_file_path = ustr ''e/x.csv'', recorded_date = None,
          classification = None, symptoms = None, sample_rate_hz = None, lead = None,
          unit_col = None, device = None, software_version = None, extra_json = []\<rparr>],
      ecg_samples = [(1, 0, 5)]\<rparr>)) \<and>
   filter (\<lambda>r. ecg_file_path r = ustr ''e/x.csv'') (ecg_records (fst (postprocess ascii_digit
     \<lparr>listdir = (\<lambda>d. if d = ustr ''r'' then Some [ustr ''a.gpx'']
                     else if d = ustr ''e'' then Some [ustr ''x.csv''] else None),
      gpx_points = (\<lambda>p. [(Some (Finite 1), Some (Finite 2), None, None)]),
      csv_rows = (\<lambda>p. [[ustr ''7'']])\<rparr>
     \<lparr>workout_routes =
        [\<lparr>route_id = 1, route_file_path = ustr ''r/a.gpx'', start_time = None, end_time = None,
          point_count = 1, distance_km = Some (Finite 0), min_lat = Some (Finite 0), max_lat = Some (Finite 0),
          min_lon = Some (Finite 0), max_lon = Some (Finite 0)\<rparr>],
      workout_route_points = [(1, 0, Some (Finite 0), Some (Finite 0), None, None)],
      ecg_records =
        [\<lparr>ecg_id = 1, ecg_file_path = ustr ''e/x.csv'', recorded_date = None,
          classification = None, symptoms = None, sample_rate_hz = None, lead = None,
          unit_col = None, device = None, software_version = None, extra_json = []\<rparr>],
      ecg_samples = [(1, 0, 5)]\<rparr>
     (ustr ''r'') (ustr ''e'') False False False))) =
     [\<lparr>ecg_id = 1, ecg_file_path = ustr ''e/x.csv'', recorded_date = None,
       classification = None, symptoms = None, sample_rate_hz = None, lead = None,
       unit_col = None, device = None, software_version = None, extra_json = []\<rparr>]"
proof -
  let ?s0 = "\<lparr>workout_routes =
        [\<lparr>route_id = 1, route_file_path = ustr ''r/a.gpx'', start_time = None, end_time = None,
          point_count = 1, distance_km = Some (Finite 0), min_lat = Some (Finite 0), max_lat = Some (Finite 0),
          min_lon = Some (Finite 0), max_lon = Some (Finite 0)\<rparr>],
      workout_route_points = [(1, 0, Some (Finite 0), Some (Finite 0), None, None)],
      ecg_records =
        [\<lparr>ecg_id = 1, ecg_file_path = ustr ''e/x.csv'', recorded_date = None,
          classification = None, symptoms = None, sample_rate_hz = None, lead = None,
          unit_col = None, device = None, software_version = None, extra_json = []\<rparr>],
      ecg_samples = [(1, 0, 5)]\<rparr>"
  let ?fs = "\<lparr>listdir = (\<lambda>d. if d = ustr ''r'' then Some [ustr ''a.gpx'']
                     else if d = ustr ''e'' then Some [ustr ''x.csv''] else None),
      gpx_points = (\<lambda>p. [(Some (Finite 1), Some (Finite 2), None, None)]),
      csv_rows = (\<lambda>p. [[ustr ''7'']])\<rparr>"
  have a: "ustr ''r/a.gpx'' \<in> set (map route_file_path (workout_routes ?s0))"
    "ustr ''e/x.csv'' \<in> set (map ecg_file_path (ecg_records ?s0))"
    by simp_all
  show ?thesis
    using a
      reingest_existing_path_adds_no_row
        [of "ustr ''r/a.gpx''" ?s0 ascii_digit ?fs "ustr ''r''" "ustr ''e''" False False]
      reingest_existing_path_adds_no_row
        [of "ustr ''e/x.csv''" ?s0 ascii_digit ?fs "ustr ''r''" "ustr ''e''" False False]
    by simp
qed

section \<open>The normalised view: proofs\<close>

lemma tag_neq [simp]:
  "ustr ''Record'' \<noteq> ustr ''MetadataEntry''"
  by (simp add: ustr_def)

lemma end_element_record_row:
  "last (rows_by_table (end_element lib wm st (ustr ''Record'') attrs) Records) =
     [SqlInt (record_id st + 1), attr attrs ''type'', attr attrs ''unit'',
      attr attrs ''value'', attr attrs ''sourceName'', attr attrs ''sourceVersion'',
      attr attrs ''device'', attr attrs ''creationDate'', attr attrs ''startDate'',
      attr attrs ''endDate'']"
  by (simp add: end_element_def append_row_def Let_def)

lemma value_num_record:
  "value_num (records_norm sa
     (last (rows_by_table (end_element lib wm st (ustr ''Record'') attrs) Records))) =
   (case map_of attrs (ustr ''value'') of None \<Rightarrow> SqlNull | Some s \<Rightarrow> SqlReal (sqlite_atof s))"
  by (simp add: end_element_record_row value_num_def records_norm_def cast_real_def attr_def
      split: option.splits)

lemma digit_not_space: "ascii_digit c \<noteq> None \<Longrightarrow> \<not> sqlite_space c"
  by (auto simp: ascii_digit_def sqlite_space_def split: if_splits)

lemma exponent_at_end: "at_end r \<Longrightarrow> exponent r = 0"
  by (auto simp: at_end_def exponent_def)

lemma sqlite_atof_decimal:
  assumes "number_re_match ascii_digit s"
  shows "sqlite_atof s = py_float ascii_digit s"
proof -
  let ?d = "\<lambda>c. ascii_digit c \<noteq> None"
  define body where "body = drop_sign s"
  define r where "r = dropWhile ?d body"
  from assms have ip: "takeWhile ?d body \<noteq> []"
    by (simp add: number_re_match_def Let_def body_def)
  then have "body \<noteq> []" by auto
  then have sne: "s \<noteq> []" by (auto simp: drop_sign_def body_def)
  have "\<not> sqlite_space (hd s)"
  proof (cases "hd s = 43 \<or> hd s = 45")
    case True
    then show ?thesis by (auto simp: sqlite_space_def)
  next
    case False
    then have "body = s" by (simp add: drop_sign_def body_def)
    then have "?d (hd s)" using ip by (cases s) (auto split: if_splits)
    then show ?thesis by (rule digit_not_space)
  qed
  then have s1: "dropWhile sqlite_space s = s"
    using sne by (cases s) auto
  from assms have tail: "at_end r \<or>
      (r \<noteq> [] \<and> hd r = 46 \<and> takeWhile ?d (tl r) \<noteq> [] \<and> at_end (dropWhile ?d (tl r)))"
    by (simp add: number_re_match_def Let_def body_def r_def)
  define fp where "fp = (if r \<noteq> [] \<and> hd r = 46 then takeWhile ?d (tl r) else [])"
  define rest where "rest = (if r \<noteq> [] \<and> hd r = 46 then dropWhile ?d (tl r) else r)"
  have parts: "decimal_parts body = (takeWhile ?d body, fp, rest)"
    by (simp add: decimal_parts_def Let_def fp_def rest_def r_def
        del: not_None_eq dropWhile_eq_Nil_conv)
  have "at_end rest"
    using tail by (auto simp: rest_def at_end_def)
  then have e: "exponent rest = 0"
    by (rule exponent_at_end)
  have a: "sqlite_atof s =
      (if hd s = 45 then - 1 else 1) *
      (real (digits_value ascii_digit (takeWhile ?d body)) +
       real (digits_value ascii_digit fp) / 10 ^ length fp)"
    using ip sne
    by (simp add: sqlite_atof_def s1 body_def [symmetric] parts e
        del: not_None_eq dropWhile_eq_Nil_conv takeWhile_eq_Nil_iff)
  have b: "py_float ascii_digit s =
      (if hd s = 45 then - 1 else 1) *
      (real (digits_value ascii_digit (takeWhile ?d body)) +
       real (digits_value ascii_digit fp) / 10 ^ length fp)"
    using sne
    by (simp add: py_float_def Let_def body_def [symmetric] r_def [symmetric] fp_def
        del: not_None_eq dropWhile_eq_Nil_conv takeWhile_eq_Nil_iff)
  show ?thesis
    by (simp only: a b)
qed

lemma sqlite_atof_no_digit:
  assumes "\<forall>c\<in>set s. ascii_digit c = None"
  shows "sqlite_atof s = 0"
proof -
  let ?d = "\<lambda>c. ascii_digit c \<noteq> None"
  define body where "body = drop_sign (dropWhile sqlite_space s)"
  have "set body \<subseteq> set (dropWhile sqlite_space s)"
    by (cases "dropWhile sqlite_space s") (auto simp: body_def drop_sign_def)
  then have b: "set body \<subseteq> set s"
    using set_dropWhileD by fastforce
  then have ip: "takeWhile ?d body = []"
    using assms by (cases body) auto
  then have r: "dropWhile ?d body = body"
    by (cases body) (auto split: if_splits)
  have "set (tl body) \<subseteq> set s"
    using b by (cases body) auto
  then have fp: "takeWhile ?d (tl body) = []"
    using assms by (cases "tl body") auto
  have "\<exists>rest. decimal_parts body = ([], [], rest)"
    by (simp add: decimal_parts_def Let_def ip r fp del: not_None_eq dropWhile_eq_Nil_conv)
  then show ?thesis
    by (auto simp: sqlite_atof_def body_def [symmetric])
qed


section \<open>Primary ingestion: flushes and ids\<close>

lemma insert_rows_Inr: "insert_rows t tbl rows = Inr tbl' \<Longrightarrow> tbl' = tbl @ rows"
proof (induction rows arbitrary: tbl)
  case Nil
  then show ?case by simp
next
  case (Cons r rows)
  then have "insert_rows t (tbl @ [r]) rows = Inr tbl'"
    by (simp split: if_splits)
  then have "tbl' = (tbl @ [r]) @ rows"
    by (rule Cons.IH)
  then show ?case by simp
qed

lemma insert_rows_ok:
  "distinct (map hd rows) \<Longrightarrow> set (map hd rows) \<inter> set (map hd tbl) = {} \<Longrightarrow>
   insert_rows t tbl rows = Inr (tbl @ rows)"
proof (induction rows arbitrary: tbl)
  case Nil
  then show ?case by simp
next
  case (Cons r rows)
  have "hd r \<notin> set (map hd tbl)"
    using Cons.prems(2) by auto
  moreover have "insert_rows t (tbl @ [r]) rows = Inr ((tbl @ [r]) @ rows)"
    using Cons.prems by (intro Cons.IH) auto
  ultimately show ?case by simp
qed

lemma insert_rows_metadata: "insert_rows RecordMetadata tbl rows = Inr (tbl @ rows)"
  by (induction rows arbitrary: tbl) auto

lemma flush_tables_Inr:
  "flush_tables ts c rows = Inr c' \<Longrightarrow> distinct ts \<Longrightarrow>
   c' t = (if t \<in> set ts then c t @ rows t else c t)"
proof (induction ts arbitrary: c)
  case Nil
  then show ?case by simp
next
  case (Cons u ts)
  from Cons.prems(1) obtain tbl where i: "insert_rows u (c u) (rows u) = Inr tbl"
    and f: "flush_tables ts (c(u := tbl)) rows = Inr c'"
    by (auto split: sum.splits)
  have tbl: "tbl = c u @ rows u"
    using i by (rule insert_rows_Inr)
  have "c' t = (if t \<in> set ts then (c(u := tbl)) t @ rows t else (c(u := tbl)) t)"
    using Cons.prems(2) by (intro Cons.IH [OF f]) simp
  then show ?case
    using Cons.prems(2) tbl by auto
qed

lemma flush_tables_ok:
  "(\<And>t. t \<in> set ts \<Longrightarrow> insert_rows t (c t) (rows t) = Inr (c t @ rows t)) \<Longrightarrow> distinct ts \<Longrightarrow>
   \<exists>c'. flush_tables ts c rows = Inr c'"
proof (induction ts arbitrary: c)
  case Nil
  then show ?case by simp
next
  case (Cons u ts)
  have "\<exists>c'. flush_tables ts (c(u := c u @ rows u)) rows = Inr c'"
    using Cons.prems by (intro Cons.IH) auto
  then show ?case
    using Cons.prems(1) [of u] by simp
qed

lemma all_tables_complete: "distinct all_tables" "t \<in> set all_tables"
  by (simp add: all_tables_def, cases t) (simp_all add: all_tables_def)

lemma flush_Inr:
  assumes "flush st = Inr st'"
  shows "db_conn st' t = db_conn st t @ rows_by_table st t"
    and "rows_by_table st' t = []"
    and "counter t st' = counter t st"
proof -
  from assms obtain c where c: "flush_tables all_tables (db_conn st) (rows_by_table st) = Inr c"
    and st': "st' = st\<lparr>db_conn := c, rows_by_table := (\<lambda>t. [])\<rparr>"
    by (auto simp: flush_def split: sum.splits)
  show "db_conn st' t = db_conn st t @ rows_by_table st t"
    using flush_tables_Inr [OF c all_tables_complete(1), of t] all_tables_complete(2) [of t]
    by (simp add: st')
  show "rows_by_table st' t = []"
    by (simp add: st')
  show "counter t st' = counter t st"
    by (simp add: st' counter_def split: table.splits)
qed

lemma flush_ok:
  assumes "\<And>t. t \<noteq> RecordMetadata \<Longrightarrow> distinct (map hd (db_conn st t @ rows_by_table st t))"
  shows "\<exists>st'. flush st = Inr st'"
proof -
  have "insert_rows t (db_conn st t) (rows_by_table st t) = Inr (db_conn st t @ rows_by_table st t)"
    for t
  proof (cases "t = RecordMetadata")
    case True
    then show ?thesis by (simp add: insert_rows_metadata)
  next
    case False
    then show ?thesis
      using assms [of t] by (intro insert_rows_ok) auto
  qed
  then obtain c where "flush_tables all_tables (db_conn st) (rows_by_table st) = Inr c"
    using flush_tables_ok [of all_tables "db_conn st" "rows_by_table st"] all_tables_complete(1)
    by blast
  then show ?thesis
    by (simp add: flush_def)
qed

lemma ustr_eq_iff [simp]: "ustr a = ustr b \<longleftrightarrow> a = b"
proof -
  have "inj (of_char :: char \<Rightarrow> nat)"
    by (simp add: inj_on_def)
  then show ?thesis
    unfolding ustr_def by (simp add: inj_map_eq_map)
qed

lemma end_element_effect:
  assumes "t \<noteq> RecordMetadata"
  shows "map hd (rows_by_table (end_element lib wm st tag attrs) t) =
           map hd (rows_by_table st t) @ (if tag = tag_of t then [SqlInt (counter t st + 1)] else [])"
    and "counter t (end_element lib wm st tag attrs) =
           (if tag = tag_of t then counter t st + 1 else counter t st)"
  using assms
  by (cases t; simp add: end_element_def append_row_def Let_def tag_of_def counter_def)+

lemma end_element_conn [simp]: "db_conn (end_element lib wm st tag attrs) = db_conn st"
  by (simp add: end_element_def append_row_def Let_def)

lemma ids_inv_initial: "ids_inv db0 (initial_state db0)"
  by (auto simp: ids_inv_def initial_state_def counter_def split: table.splits)

lemma ids_inv_end_element:
  assumes "ids_inv db0 st"
  shows "ids_inv db0 (end_element lib wm st tag attrs)"
  unfolding ids_inv_def
proof (intro allI impI)
  fix t assume t: "t \<noteq> RecordMetadata"
  have c: "0 \<le> counter t st"
    and m: "map hd (db_conn st t @ rows_by_table st t) = map hd (db0 t) @ map SqlInt [1..counter t st]"
    using assms t by (auto simp: ids_inv_def)
  have u: "[1..counter t st + 1] = [1..counter t st] @ [counter t st + 1]"
    using c by (simp add: upto_rec2)
  show "0 \<le> counter t (end_element lib wm st tag attrs) \<and>
      map hd (db_conn (end_element lib wm st tag attrs) t @
              rows_by_table (end_element lib wm st tag attrs) t) =
      map hd (db0 t) @ map SqlInt [1..counter t (end_element lib wm st tag attrs)]"
    using c m by (simp add: end_element_effect [OF t] u)
qed

lemma ids_inv_flush:
  assumes "ids_inv db0 st" "flush st = Inr st'"
  shows "ids_inv db0 st'"
  using assms(1) by (simp add: ids_inv_def flush_Inr [OF assms(2)])

lemma handle_event_Inr:
  assumes "ids_inv db0 st" "handle_event lib bs wm st ev = Inr st'"
  shows "ids_inv db0 st'"
    and "t \<noteq> RecordMetadata \<Longrightarrow>
         counter t st' = counter t st + (if ends_with_tag (tag_of t) ev then 1 else 0)"
proof -
  show "ids_inv db0 st'"
  proof (cases ev)
    case (Start tag)
    then have "st' = (if tag = ustr ''Record'' then st\<lparr>in_record := True, record_metadata := []\<rparr> else st)"
      using assms(2) by (simp add: handle_event_def)
    then show ?thesis
      using assms(1) by (auto simp: ids_inv_def counter_def split: table.splits)
  next
    case (End tag attrs)
    let ?st1 = "end_element lib wm st tag attrs"
    have i: "ids_inv db0 ?st1"
      using assms(1) by (rule ids_inv_end_element)
    have "flush ?st1 = Inr st' \<or> st' = ?st1"
      using assms(2) End by (auto simp: handle_event_def Let_def split: if_splits)
    then show ?thesis
      using i ids_inv_flush by blast
  qed
  show "counter t st' = counter t st + (if ends_with_tag (tag_of t) ev then 1 else 0)"
    if t: "t \<noteq> RecordMetadata"
  proof (cases ev)
    case (Start tag)
    then have "st' = (if tag = ustr ''Record'' then st\<lparr>in_record := True, record_metadata := []\<rparr> else st)"
      using assms(2) by (simp add: handle_event_def)
    then show ?thesis
      using Start by (auto simp: counter_def split: table.splits)
  next
    case (End tag attrs)
    let ?st1 = "end_element lib wm st tag attrs"
    have "flush ?st1 = Inr st' \<or> st' = ?st1"
      using assms(2) End by (auto simp: handle_event_def Let_def split: if_splits)
    then have "counter t st' = counter t ?st1"
      using flush_Inr(3) by blast
    then show ?thesis
      using End by (auto simp: end_element_effect(2) [OF t])
  qed
qed

lemma main_loop_Inr:
  assumes "ids_inv db0 st" "main_loop lib bs wm st evs = Inr st'"
  shows "ids_inv db0 st' \<and>
         (\<forall>t. t \<noteq> RecordMetadata \<longrightarrow> counter t st' = counter t st + int (count_ends t evs))"
  using assms
proof (induction evs arbitrary: st)
  case Nil
  then show ?case by (simp add: count_ends_def)
next
  case (Cons ev evs)
  from Cons.prems(2) obtain st1 where h: "handle_event lib bs wm st ev = Inr st1"
    and l: "main_loop lib bs wm st1 evs = Inr st'"
    by (auto split: sum.splits)
  note e = handle_event_Inr [OF Cons.prems(1) h]
  have "ids_inv db0 st' \<and>
      (\<forall>t. t \<noteq> RecordMetadata \<longrightarrow> counter t st' = counter t st1 + int (count_ends t evs))"
    using e(1) l by (rule Cons.IH)
  then show ?case
    using e(2) by (auto simp: count_ends_def)
qed

lemma main_ids:
  assumes "main lib bs wm (Some evs) db0 = (db', Exit 0)" "t \<noteq> RecordMetadata"
  shows "map hd (db' t) = map hd (db0 t) @ map SqlInt [1..int (count_ends t evs)]"
proof -
  from assms(1) obtain st st' where l: "main_loop lib bs wm (initial_state db0) evs = Inr st"
    and f: "flush st = Inr st'" and d: "db' = db_conn st'"
    by (auto simp: main_def split: sum.splits prod.splits)
  have i: "ids_inv db0 st"
    and c: "counter t st = counter t (initial_state db0) + int (count_ends t evs)"
    using main_loop_Inr [OF ids_inv_initial l] assms(2) by auto
  have c0: "counter t (initial_state db0) = 0"
    by (simp add: counter_def initial_state_def split: table.splits)
  have "ids_inv db0 st'"
    using i f by (rule ids_inv_flush)
  then show ?thesis
    using assms(2) flush_Inr(2,3) [OF f] c c0 by (simp add: ids_inv_def d)
qed

lemma ids_inv_fresh_flush:
  assumes "ids_inv (\<lambda>t. []) st"
  shows "\<exists>st'. flush st = Inr st'"
proof (rule flush_ok)
  fix t :: table
  assume "t \<noteq> RecordMetadata"
  then have "map hd (db_conn st t @ rows_by_table st t) = map SqlInt [1..counter t st]"
    using assms by (simp add: ids_inv_def)
  then show "distinct (map hd (db_conn st t @ rows_by_table st t))"
    by (simp add: distinct_map inj_on_def)
qed

lemma main_loop_fresh:
  assumes "ids_inv (\<lambda>t. []) st"
  shows "\<exists>st'. main_loop lib bs wm st evs = Inr st'"
  using assms
proof (induction evs arbitrary: st)
  case Nil
  then show ?case by simp
next
  case (Cons ev evs)
  have "\<exists>st1. handle_event lib bs wm st ev = Inr st1"
  proof (cases ev)
    case (Start tag)
    then show ?thesis by (simp add: handle_event_def)
  next
    case (End tag attrs)
    have "\<exists>st'. flush (end_element lib wm st tag attrs) = Inr st'"
      using Cons.prems by (intro ids_inv_fresh_flush ids_inv_end_element)
    then show ?thesis
      using End by (auto simp: handle_event_def Let_def)
  qed
  then obtain st1 where h: "handle_event lib bs wm st ev = Inr st1" by blast
  then have "ids_inv (\<lambda>t. []) st1"
    using handle_event_Inr(1) Cons.prems by blast
  then show ?case
    using Cons.IH h by simp
qed

lemma main_fresh: "\<exists>db'. main lib bs wm (Some evs) (\<lambda>t. []) = (db', Exit 0)"
proof -
  obtain st where l: "main_loop lib bs wm (initial_state (\<lambda>t. [])) evs = Inr st"
    using main_loop_fresh [OF ids_inv_initial] by blast
  then have "ids_inv (\<lambda>t. []) st"
    using main_loop_Inr [OF ids_inv_initial] by blast
  then obtain st' where "flush st = Inr st'"
    using ids_inv_fresh_flush by blast
  then show ?thesis
    using l by (simp add: main_def)
qed

lemma handle_event_End:
  assumes "handle_event lib bs wm st (End tag attrs) = Inr st'"
  shows "if bs \<le> int (length (rows_by_table (end_element lib wm st tag attrs) Records))
         then \<forall>t. db_conn st' t = db_conn st t @ rows_by_table (end_element lib wm st tag attrs) t \<and>
                  rows_by_table st' t = []
         else st' = end_element lib wm st tag attrs"
proof (cases "bs \<le> int (length (rows_by_table (end_element lib wm st tag attrs) Records))")
  case True
  then have "flush (end_element lib wm st tag attrs) = Inr st'"
    using assms by (simp add: handle_event_def Let_def)
  then show ?thesis
    using True flush_Inr(1,2) [of "end_element lib wm st tag attrs" st'] by simp
next
  case False
  then show ?thesis
    using assms by (simp add: handle_event_def Let_def)
qed

lemma main_loop_without_records:
  assumes "1 \<le> bs" "\<forall>ev\<in>set evs. \<not> ends_with_tag (ustr ''Record'') ev"
    "rows_by_table st Records = []"
  shows "\<exists>st'. main_loop lib bs wm st evs = Inr st' \<and> db_conn st' = db_conn st \<and>
           rows_by_table st' Records = [] \<and>
           (\<forall>t. t \<noteq> RecordMetadata \<longrightarrow>
              length (rows_by_table st' t) = length (rows_by_table st t) + count_ends t evs)"
  using assms(2,3)
proof (induction evs arbitrary: st)
  case Nil
  then show ?case by (simp add: count_ends_def)
next
  case (Cons ev evs)
  obtain st1 where h: "handle_event lib bs wm st ev = Inr st1" and c: "db_conn st1 = db_conn st"
    and r: "rows_by_table st1 Records = []"
    and n: "\<And>t. t \<noteq> RecordMetadata \<Longrightarrow>
      length (rows_by_table st1 t) =
        length (rows_by_table st t) + (if ends_with_tag (tag_of t) ev then 1 else 0)"
  proof (cases ev)
    case (Start tag)
    show ?thesis
      by (rule that [of "if tag = ustr ''Record'' then st\<lparr>in_record := True, record_metadata := []\<rparr>
          else st"])
        (use Start Cons.prems(2) in \<open>auto simp: handle_event_def\<close>)
  next
    case (End tag attrs)
    let ?st1 = "end_element lib wm st tag attrs"
    have tag: "tag \<noteq> ustr ''Record''"
      using Cons.prems(1) End by auto
    have l: "length (rows_by_table ?st1 t) =
        length (rows_by_table st t) + (if tag = tag_of t then 1 else 0)"
      if "t \<noteq> RecordMetadata" for t
      using arg_cong [OF end_element_effect(1) [OF that, of lib wm st tag attrs], of length]
      by simp
    have r: "rows_by_table ?st1 Records = []"
      using l [of Records] tag Cons.prems(2) by (simp add: tag_of_def)
    then have "handle_event lib bs wm st ev = Inr ?st1"
      using End assms(1) by (simp add: handle_event_def Let_def)
    then show ?thesis
      using r l End by (intro that [of ?st1]) auto
  qed
  obtain st' where "main_loop lib bs wm st1 evs = Inr st'" "db_conn st' = db_conn st1"
    "rows_by_table st' Records = []"
    "\<forall>t. t \<noteq> RecordMetadata \<longrightarrow>
       length (rows_by_table st' t) = length (rows_by_table st1 t) + count_ends t evs"
    using Cons.IH [of st1] Cons.prems(1) r by auto
  then show ?case
    using h c n by (auto simp: count_ends_def)
qed

lemma upt_upto: "map (\<lambda>i. n0 + int i) [0..<k] = [n0..n0 + int k - 1]"
proof (induction k)
  case 0
  then show ?case by simp
next
  case (Suc k)
  have "[n0..n0 + int (Suc k) - 1] = [n0..n0 + int k - 1] @ [n0 + int k]"
    using upto_rec2 [of n0 "n0 + int k"] by simp
  then show ?case
    using Suc by simp
qed

lemma path_join_inj:
  assumes "47 \<notin> set a" "47 \<notin> set b" "path_join d a = path_join d b"
  shows "a = b"
proof -
  have "hd n \<noteq> 47 \<or> n = []" if "47 \<notin> set n" for n :: ustring
    using that by (cases n) auto
  then have "\<And>n. 47 \<notin> set n \<Longrightarrow>
      path_join d n = (if d = [] \<or> last d = 47 then d else d @ [47]) @ n"
    by (auto simp: path_join_def)
  then show ?thesis
    using assms by auto
qed

lemma import_workout_routes_ids:
  assumes "listdir fs d = Some names" "distinct names" "\<forall>n\<in>set names. 47 \<notin> set n"
  shows "\<exists>k. map route_id (workout_routes (fst (import_workout_routes fs conn d True))) =
           map route_id (workout_routes conn) @
           [next_id (Some (map route_id (workout_routes conn)))..
            next_id (Some (map route_id (workout_routes conn))) + int k - 1] \<and>
           (\<forall>j. snd (import_workout_routes fs conn d True) = Inr j \<longrightarrow> j = k)"
proof -
  define existing where "existing = set (map route_file_path (workout_routes conn))"
  define n0 where "n0 = next_id (Some (map route_id (workout_routes conn)))"
  define sel where "sel = filter (route_selected fs d True existing) (sort names)"
  obtain ms zs where ms: "ok_selected fs d True existing (sort names) = ms @ zs"
    and f: "fst (import_workout_routes fs conn d True) =
      flush_routes conn (map fst (routes_of_files fs d n0 ms))
        (concat (map snd (routes_of_files fs d n0 ms)))"
    and k: "\<forall>j. snd (import_workout_routes fs conn d True) = Inr j \<longrightarrow> j = length ms"
    using import_workout_routes_store [OF assms(1), of True conn]
    unfolding if_True existing_def [symmetric] n0_def [symmetric] by blast
  define R where "R = routes_of_files fs d n0 ms"
  have sub: "set ms \<subseteq> set sel"
    using ok_selected_subset [of fs d True existing "sort names"] ms by (auto simp: sel_def)
  have ok: "\<forall>n\<in>set ms. route_ok fs d n"
    using ok_selected_ok [of _ fs d True existing "sort names"] ms by auto
  have "distinct (ok_selected fs d True existing (sort names))"
    unfolding ok_selected_def using assms(2) by (intro distinct_takeWhile distinct_filter) simp
  then have dm: "distinct ms"
    unfolding ms by simp
  have ids: "map route_id (map fst R) = map (\<lambda>i. n0 + int i) [0..<length ms]"
    using routes_of_files_ids [OF ok, where rid = n0] by (simp add: R_def)
  have paths: "map route_file_path (map fst R) = map (path_join d) ms"
    using routes_of_files_paths [OF ok] by (simp add: R_def)
  have lt: "\<And>x. x \<in> set (map route_id (workout_routes conn)) \<Longrightarrow> x < n0"
    unfolding n0_def by (rule next_id_fresh)
  have sn: "set ms \<subseteq> set names"
    using sub by (auto simp: sel_def)
  have "inj_on (path_join d) (set ms)"
    using sn assms(3) by (meson inj_onI path_join_inj subsetD)
  then have dp: "distinct (map route_file_path (map fst R))"
    unfolding paths using dm by (simp add: distinct_map)
  have np: "set (map route_file_path (map fst R)) \<inter> set (map route_file_path (workout_routes conn)) = {}"
    unfolding paths using sub by (auto simp: sel_def route_selected_def existing_def)
  have "foldl (insert_or_ignore route_id route_file_path) (workout_routes conn) (map fst R) =
      workout_routes conn @ map fst R"
    by (rule foldl_insert_or_ignore_all) (simp_all only: ids fresh_ids [OF lt] dp np)
  then have "map route_id (workout_routes (fst (import_workout_routes fs conn d True))) =
      map route_id (workout_routes conn) @ [n0..n0 + int (length ms) - 1]"
    by (simp add: f R_def [symmetric] ids upt_upto del: map_map)
  then show ?thesis
    using k unfolding n0_def by blast
qed

lemma import_ecg_ids:
  assumes "listdir fs d = Some names" "distinct names" "\<forall>n\<in>set names. 47 \<notin> set n"
  shows "map ecg_id (ecg_records (fst (import_ecg dv fs conn d True))) =
         map ecg_id (ecg_records conn) @
         [next_id (Some (map ecg_id (ecg_records conn)))..
          next_id (Some (map ecg_id (ecg_records conn))) +
            int (snd (import_ecg dv fs conn d True)) - 1]"
proof -
  define existing where "existing = set (map ecg_file_path (ecg_records conn))"
  define n0 where "n0 = next_id (Some (map ecg_id (ecg_records conn)))"
  define sel where "sel = filter (ecg_selected dv fs d True existing) (sort names)"
  define R where "R = ecgs_of_files dv fs d n0 sel"
  have e: "import_ecg dv fs conn d True =
      (flush_ecg conn (map fst R) (concat (map snd R)), length sel)"
    by (simp add: import_ecg_eq assms(1) Let_def existing_def n0_def sel_def R_def)
  have ids: "map ecg_id (map fst R) = map (\<lambda>i. n0 + int i) [0..<length sel]"
    using ecgs_of_files_ids [where eid = n0 and ns = sel] by (simp add: R_def)
  have paths: "map ecg_file_path (map fst R) = map (path_join d) sel"
    using ecgs_of_files_paths [where ns = sel] by (simp add: R_def)
  have lt: "\<And>x. x \<in> set (map ecg_id (ecg_records conn)) \<Longrightarrow> x < n0"
    unfolding n0_def by (rule next_id_fresh)
  have ds: "distinct sel" "set sel \<subseteq> set names"
    using assms(2) by (auto simp: sel_def)
  have "inj_on (path_join d) (set sel)"
    using ds(2) assms(3) by (meson inj_onI path_join_inj subsetD)
  then have dp: "distinct (map ecg_file_path (map fst R))"
    unfolding paths using ds(1) by (simp add: distinct_map)
  have np: "set (map ecg_file_path (map fst R)) \<inter> set (map ecg_file_path (ecg_records conn)) = {}"
    unfolding paths by (auto simp: sel_def ecg_selected_def existing_def)
  have "foldl (insert_or_ignore ecg_id ecg_file_path) (ecg_records conn) (map fst R) =
      ecg_records conn @ map fst R"
    by (rule foldl_insert_or_ignore_all) (simp_all only: ids fresh_ids [OF lt] dp np)
  then show ?thesis
    by (simp add: e ids upt_upto n0_def [symmetric] del: map_map)
qed

text \<open>
  Claim C2, amended. Primary ingestion numbers the rows of every entity table 1, 2, 3, ...
  in stream order, whatever the table already holds: a run that ends with exit status 0
  has appended exactly these ids, and on a fresh store every run does. The post-process
  stage starts from \<^verbatim>\<open>_next_id\<close>, which is 1 for an absent or empty table and the
  largest id plus one otherwise; with skip-existing enabled (and a directory listing of
  distinct names without a path separator) the ids of the rows it adds are the dense range
  from there, one per ingested file when the import returns; a route import ended by an
  exception has added a dense range from there as well, for the files flushed before.
\<close>

theorem ids_dense_from_one_or_next_id:
  "(main lib bs wm (Some evs) db0 = (db', Exit 0) \<and> t \<noteq> RecordMetadata \<longrightarrow>
      map hd (db' t) = map hd (db0 t) @ map SqlInt [1..int (count_ends t evs)]) \<and>
   (\<exists>db1. main lib bs wm (Some evs) (\<lambda>t. []) = (db1, Exit 0)) \<and>
   next_id None = 1 \<and> next_id (Some []) = 1 \<and>
   (ids \<noteq> [] \<longrightarrow> next_id (Some ids) = Max (set ids) + 1) \<and>
   (listdir fs rd = Some rnames \<and> distinct rnames \<and> (\<forall>n\<in>set rnames. 47 \<notin> set n) \<longrightarrow>
      (\<exists>k. map route_id (workout_routes (fst (import_workout_routes fs conn rd True))) =
             map route_id (workout_routes conn) @
             [next_id (Some (map route_id (workout_routes conn)))..
              next_id (Some (map route_id (workout_routes conn))) + int k - 1] \<and>
           (\<forall>j. snd (import_workout_routes fs conn rd True) = Inr j \<longrightarrow> j = k))) \<and>
   (listdir fs ed = Some enames \<and> distinct enames \<and> (\<forall>n\<in>set enames. 47 \<notin> set n) \<longrightarrow>
      map ecg_id (ecg_records (fst (import_ecg dv fs conn ed True))) =
        map ecg_id (ecg_records conn) @
        [next_id (Some (map ecg_id (ecg_records conn)))..
         next_id (Some (map ecg_id (ecg_records conn))) +
           int (snd (import_ecg dv fs conn ed True)) - 1])"
proof -
  have "next_id None = 1" "next_id (Some []) = 1" "ids \<noteq> [] \<longrightarrow> next_id (Some ids) = Max (set ids) + 1"
    by (simp_all add: next_id_def)
  then show ?thesis
    using main_ids [of lib bs wm evs db0 db' t] main_fresh [of lib bs wm evs]
      import_workout_routes_ids [of fs rd rnames conn] import_ecg_ids [of fs ed enames dv conn]
    by blast
qed

text \<open>
  Claim C2, as stated, fails for primary ingestion: its counters start at 0 in every run.
  On a store whose record table already holds id 1, a run over one \<^verbatim>\<open>Record\<close> element
  gives the new row id 1 again, not 2; the insert violates the primary key and the run ends
  in \<^verbatim>\<open>sqlite3.IntegrityError\<close> with the store as it was.
\<close>

theorem ingestion_restarts_ids_counterexample:
  "main \<lparr>float_of = (\<lambda>s. None), json_dumps = (\<lambda>a. [])\<rparr> 10000 False
     (Some [Start (ustr ''Record''), End (ustr ''Record'') []])
     (\<lambda>t. if t = Records
          then [[SqlInt 1, SqlNull, SqlNull, SqlNull, SqlNull, SqlNull, SqlNull, SqlNull, SqlNull, SqlNull]]
          else []) =
   ((\<lambda>t. if t = Records
          then [[SqlInt 1, SqlNull, SqlNull, SqlNull, SqlNull, SqlNull, SqlNull, SqlNull, SqlNull, SqlNull]]
          else []),
    Raised IntegrityError)"
  by (simp add: main_def handle_event_def end_element_def append_row_def initial_state_def
      flush_def all_tables_def attr_def Let_def)

theorem ids_dense_witness:
  "main \<lparr>float_of = (\<lambda>s. None), json_dumps = (\<lambda>a. [])\<rparr> 10000 False
     (Some [Start (ustr ''Record''), End (ustr ''Record'') [], End (ustr ''Record'') []])
     (\<lambda>t. []) =
   (fst (main \<lparr>float_of = (\<lambda>s. None), json_dumps = (\<lambda>a. [])\<rparr> 10000 False
     (Some [Start (ustr ''Record''), End (ustr ''Record'') [], End (ustr ''Record'') []])
     (\<lambda>t. [])), Exit 0) \<and>
   map hd (fst (main \<lparr>float_of = (\<lambda>s. None), json_dumps = (\<lambda>a. [])\<rparr> 10000 False
     (Some [Start (ustr ''Record''), End (ustr ''Record'') [], End (ustr ''Record'') []])
     (\<lambda>t. [])) Records) = [SqlInt 1, SqlInt 2] \<and>
   map route_id (workout_routes (fst (import_workout_routes
     \<lparr>listdir = (\<lambda>d. if d = ustr ''r'' then Some [ustr ''a.gpx''] else None),
      gpx_points = (\<lambda>p. [(Some (Finite 1), Some (Finite 2), None, None)]),
      csv_rows = (\<lambda>p. [[ustr ''1'']])\<rparr>
     \<lparr>workout_routes =
        [\<lparr>route_id = 4, route_file_path = ustr ''r/z.gpx'', start_time = None, end_time = None,
          point_count = 1, distance_km = Some (Finite 0), min_lat = Some (Finite 0), max_lat = Some (Finite 0),
          min_lon = Some (Finite 0), max_lon = Some (Finite 0)\<rparr>],
      workout_route_points = [(4, 0, Some (Finite 0), Some (Finite 0), None, None)],
      ecg_records = [], ecg_samples = []\<rparr>
     (ustr ''r'') True))) = [4, 5] \<and>
   map ecg_id (ecg_records (fst (import_ecg ascii_digit
     \<lparr>listdir = (\<lambda>d. if d = ustr ''r'' then Some [ustr ''a.gpx''] else None),
      gpx_points = (\<lambda>p. [(Some (Finite 1), Some (Finite 2), None, None)]),
      csv_rows = (\<lambda>p. [[ustr ''1'']])\<rparr>
     \<lparr>workout_routes =
        [\<lparr>route_id = 4, route_file_path = ustr ''r/z.gpx'', start_time = None, end_time = None,
          point_count = 1, distance_km = Some (Finite 0), min_lat = Some (Finite 0), max_lat = Some (Finite 0),
          min_lon = Some (Finite 0), max_lon = Some (Finite 0)\<rparr>],
      workout_route_points = [(4, 0, Some (Finite 0), Some (Finite 0), None, None)],
      ecg_records = [], ecg_samples = []\<rparr>
     (ustr ''r'') True))) = []"
proof -
  let ?lib = "\<lparr>float_of = (\<lambda>s. None), json_dumps = (\<lambda>a. [])\<rparr>"
  let ?evs = "[Start (ustr ''Record''), End (ustr ''Record'') [], End (ustr ''Record'') []]"
  let ?fs = "\<lparr>listdir = (\<lambda>d. if d = ustr ''r'' then Some [ustr ''a.gpx''] else None),
      gpx_points = (\<lambda>p. [(Some (Finite 1), Some (Finite 2), None, None)]),
      csv_rows = (\<lambda>p. [[ustr ''1'']])\<rparr>"
  let ?conn = "\<lparr>workout_routes =
        [\<lparr>route_id = 4, route_file_path = ustr ''r/z.gpx'', start_time = None, end_time = None,
          point_count = 1, distance_km = Some (Finite 0), min_lat = Some (Finite 0), max_lat = Some (Finite 0),
          min_lon = Some (Finite 0), max_lon = Some (Finite 0)\<rparr>],
      workout_route_points = [(4, 0, Some (Finite 0), Some (Finite 0), None, None)],
      ecg_records = [], ecg_samples = []\<rparr>"
  note inst = ids_dense_from_one_or_next_id
    [of ?lib 10000 False ?evs "\<lambda>t. []" "fst (main ?lib 10000 False (Some ?evs) (\<lambda>t. []))" Records
        "[4]" ?fs "ustr ''r''" "[ustr ''a.gpx'']" ?conn "ustr ''r''" "[ustr ''a.gpx'']" ascii_digit]
  note i_ing = inst [THEN conjunct1]
  note i_fresh = inst [THEN conjunct2, THEN conjunct1]
  note i_routes = inst [THEN conjunct2, THEN conjunct2, THEN conjunct2, THEN conjunct2,
      THEN conjunct2, THEN conjunct1]
  note i_ecg = inst [THEN conjunct2, THEN conjunct2, THEN conjunct2, THEN conjunct2,
      THEN conjunct2, THEN conjunct2]
  obtain db1 where "main ?lib 10000 False (Some ?evs) (\<lambda>t. []) = (db1, Exit 0)"
    using i_fresh by (rule exE)
  then have m: "main ?lib 10000 False (Some ?evs) (\<lambda>t. []) =
      (fst (main ?lib 10000 False (Some ?evs) (\<lambda>t. [])), Exit 0)"
    by simp
  have c: "count_ends Records ?evs = 2"
    by (simp add: count_ends_def tag_of_def)
  have u: "[1..2] = [1, 2::int]"
    by (simp add: upto.simps)
  have "map hd (fst (main ?lib 10000 False (Some ?evs) (\<lambda>t. [])) Records) =
      map hd ((\<lambda>t. []) Records) @ map SqlInt [1..int (count_ends Records ?evs)]"
    using m by (intro i_ing [rule_format]) simp
  then have ids: "map hd (fst (main ?lib 10000 False (Some ?evs) (\<lambda>t. [])) Records) =
      [SqlInt 1, SqlInt 2]"
    by (simp add: c u)
  have s: "\<forall>n\<in>set [ustr ''a.gpx'']. 47 \<notin> set n"
    by (simp add: ustr_def)
  have l: "listdir ?fs (ustr ''r'') = Some [ustr ''a.gpx'']"
    by simp
  have n: "snd (import_workout_routes ?fs ?conn (ustr ''r'') True) = Inr 1"
    by (simp add: import_workout_routes_def route_file_step_def gpx_name_a path_join_r_a
        list_existing_def route_of_file_def Let_def)
  have "\<exists>k. map route_id (workout_routes (fst (import_workout_routes ?fs ?conn (ustr ''r'') True))) =
      map route_id (workout_routes ?conn) @
        [next_id (Some (map route_id (workout_routes ?conn)))..
         next_id (Some (map route_id (workout_routes ?conn))) + int k - 1] \<and>
      (\<forall>j. snd (import_workout_routes ?fs ?conn (ustr ''r'') True) = Inr j \<longrightarrow> j = k)"
    using l s by (intro i_routes [rule_format]) simp
  then obtain k where k: "map route_id (workout_routes (fst (import_workout_routes ?fs ?conn
        (ustr ''r'') True))) =
      map route_id (workout_routes ?conn) @
        [next_id (Some (map route_id (workout_routes ?conn)))..
         next_id (Some (map route_id (workout_routes ?conn))) + int k - 1]"
    "\<forall>j. snd (import_workout_routes ?fs ?conn (ustr ''r'') True) = Inr j \<longrightarrow> j = k"
    by blast
  have "k = 1"
    using k(2) n by simp
  then have r: "map route_id (workout_routes (fst (import_workout_routes ?fs ?conn (ustr ''r'') True))) =
      [4, 5]"
    using k(1) by (simp add: next_id_def)
  have n2: "snd (import_ecg ascii_digit ?fs ?conn (ustr ''r'') True) = 0"
    by (simp add: import_ecg_def ecg_file_step_def endswith_def lower_def ustr_def)
  have "map ecg_id (ecg_records (fst (import_ecg ascii_digit ?fs ?conn (ustr ''r'') True))) =
      map ecg_id (ecg_records ?conn) @
        [next_id (Some (map ecg_id (ecg_records ?conn)))..
         next_id (Some (map ecg_id (ecg_records ?conn))) +
           int (snd (import_ecg ascii_digit ?fs ?conn (ustr ''r'') True)) - 1]"
    using l s by (intro i_ecg [rule_format]) simp
  then have e: "map ecg_id (ecg_records (fst (import_ecg ascii_digit ?fs ?conn (ustr ''r'') True))) = []"
    unfolding n2 by (simp add: next_id_def)
  show ?thesis
    using m ids r e by blast
qed

text \<open>
  Claim C5, amended. A flush appends, for every table, its buffered rows to the store in
  one committed transaction and leaves every buffer empty. After an element ends, the
  flush happens exactly when the buffer of the \<^emph>\<open>record\<close> table has reached the
  threshold; the buffers of the other tables are not looked at. So a stream without
  \<^verbatim>\<open>Record\<close> elements (threshold at least 1) reaches the end of the loop with the
  store untouched and all its rows still buffered, for the final flush to write.
\<close>

theorem flush_on_record_threshold_only:
  "(flush st = Inr st' \<longrightarrow>
      (\<forall>t. db_conn st' t = db_conn st t @ rows_by_table st t \<and> rows_by_table st' t = [])) \<and>
   (handle_event lib bs wm st (End tag attrs) = Inr st'' \<longrightarrow>
      (if bs \<le> int (length (rows_by_table (end_element lib wm st tag attrs) Records))
       then \<forall>t. db_conn st'' t = db_conn st t @ rows_by_table (end_element lib wm st tag attrs) t \<and>
                rows_by_table st'' t = []
       else st'' = end_element lib wm st tag attrs)) \<and>
   (1 \<le> bs \<and> (\<forall>ev\<in>set evs. \<not> ends_with_tag (ustr ''Record'') ev) \<longrightarrow>
      (\<exists>st1. main_loop lib bs wm (initial_state c) evs = Inr st1 \<and> db_conn st1 = c \<and>
             (\<forall>t. t \<noteq> RecordMetadata \<longrightarrow> length (rows_by_table st1 t) = count_ends t evs)))"
proof (intro conjI impI)
  assume "flush st = Inr st'"
  then show "\<forall>t. db_conn st' t = db_conn st t @ rows_by_table st t \<and> rows_by_table st' t = []"
    using flush_Inr(1,2) by blast
next
  assume "handle_event lib bs wm st (End tag attrs) = Inr st''"
  then show "if bs \<le> int (length (rows_by_table (end_element lib wm st tag attrs) Records))
       then \<forall>t. db_conn st'' t = db_conn st t @ rows_by_table (end_element lib wm st tag attrs) t \<and>
                rows_by_table st'' t = []
       else st'' = end_element lib wm st tag attrs"
    by (rule handle_event_End)
next
  assume a: "1 \<le> bs \<and> (\<forall>ev\<in>set evs. \<not> ends_with_tag (ustr ''Record'') ev)"
  have "rows_by_table (initial_state c) Records = []" "db_conn (initial_state c) = c"
    "\<And>t. rows_by_table (initial_state c) t = []"
    by (simp_all add: initial_state_def)
  then show "\<exists>st1. main_loop lib bs wm (initial_state c) evs = Inr st1 \<and> db_conn st1 = c \<and>
             (\<forall>t. t \<noteq> RecordMetadata \<longrightarrow> length (rows_by_table st1 t) = count_ends t evs)"
    using main_loop_without_records [of bs evs "initial_state c" lib wm] a by auto
qed

text \<open>
  Claim C5, as stated, fails: with threshold 1 and a stream of two \<^verbatim>\<open>Workout\<close>
  elements, the loop ends with both rows in the workout buffer and nothing in the store.
\<close>

theorem workouts_alone_trigger_no_flush_counterexample:
  "\<not> isl (main_loop \<lparr>float_of = (\<lambda>s. None), json_dumps = (\<lambda>a. [])\<rparr> 1 False
            (initial_state (\<lambda>t. []))
            [Start (ustr ''Workout''), End (ustr ''Workout'') [],
             Start (ustr ''Workout''), End (ustr ''Workout'') []]) \<and>
   length (rows_by_table
     (projr (main_loop \<lparr>float_of = (\<lambda>s. None), json_dumps = (\<lambda>a. [])\<rparr> 1 False
            (initial_state (\<lambda>t. []))
            [Start (ustr ''Workout''), End (ustr ''Workout'') [],
             Start (ustr ''Workout''), End (ustr ''Workout'') []])) Workouts) = 2 \<and>
   db_conn
     (projr (main_loop \<lparr>float_of = (\<lambda>s. None), json_dumps = (\<lambda>a. [])\<rparr> 1 False
            (initial_state (\<lambda>t. []))
            [Start (ustr ''Workout''), End (ustr ''Workout'') [],
             Start (ustr ''Workout''), End (ustr ''Workout'') []])) Workouts = []"
  by (simp add: handle_event_def end_element_def append_row_def initial_state_def Let_def)

theorem flush_on_record_threshold_witness:
  "flush (initial_state (\<lambda>t. [])) = Inr (initial_state (\<lambda>t. [])) \<and>
   (\<forall>t. db_conn (initial_state (\<lambda>t. [])) t =
          db_conn (initial_state (\<lambda>t. [])) t @ rows_by_table (initial_state (\<lambda>t. [])) t) \<and>
   handle_event \<lparr>float_of = (\<lambda>s. None), json_dumps = (\<lambda>a. [])\<rparr> 1 False (initial_state (\<lambda>t. []))
       (End (ustr ''Workout'') []) =
     Inr (end_element \<lparr>float_of = (\<lambda>s. None), json_dumps = (\<lambda>a. [])\<rparr> False
            (initial_state (\<lambda>t. [])) (ustr ''Workout'') []) \<and>
   (\<exists>st1. main_loop \<lparr>float_of = (\<lambda>s. None), json_dumps = (\<lambda>a. [])\<rparr> 1 False
            (initial_state (\<lambda>t. []))
            [End (ustr ''Workout'') [], End (ustr ''Workout'') []] = Inr st1 \<and>
          db_conn st1 = (\<lambda>t. []) \<and> length (rows_by_table st1 Workouts) = 2)"
proof -
  let ?lib = "\<lparr>float_of = (\<lambda>s. None), json_dumps = (\<lambda>a. [])\<rparr>"
  let ?st0 = "initial_state (\<lambda>t. [])"
  let ?evs = "[End (ustr ''Workout'') [], End (ustr ''Workout'') []]"
  note inst = flush_on_record_threshold_only
    [of ?st0 ?st0 ?lib 1 False "ustr ''Workout''" "[]"
        "end_element ?lib False ?st0 (ustr ''Workout'') []" ?evs "\<lambda>t. []"]
  have "(\<lambda>t. []) = (\<lambda>t. [])(x := [])" for x :: table
    by (simp add: fun_eq_iff)
  then have f: "flush ?st0 = Inr ?st0"
    by (simp add: flush_def all_tables_def initial_state_def fun_upd_idem)
  have h: "handle_event ?lib 1 False ?st0 (End (ustr ''Workout'') []) =
      Inr (end_element ?lib False ?st0 (ustr ''Workout'') [])"
    by (simp add: handle_event_def end_element_def append_row_def initial_state_def Let_def)
  have a: "\<forall>t. db_conn ?st0 t = db_conn ?st0 t @ rows_by_table ?st0 t"
    using inst [THEN conjunct1] f by simp
  have n: "\<forall>ev\<in>set ?evs. \<not> ends_with_tag (ustr ''Record'') ev"
    by simp
  have c: "count_ends Workouts ?evs = 2"
    by (simp add: count_ends_def tag_of_def)
  obtain st1 where "main_loop ?lib 1 False ?st0 ?evs = Inr st1" "db_conn st1 = (\<lambda>t. [])"
    "\<forall>t. t \<noteq> RecordMetadata \<longrightarrow> length (rows_by_table st1 t) = count_ends t ?evs"
    using inst [THEN conjunct2, THEN conjunct2] n by auto
  then have "\<exists>st1. main_loop ?lib 1 False ?st0 ?evs = Inr st1 \<and> db_conn st1 = (\<lambda>t. []) \<and>
      length (rows_by_table st1 Workouts) = 2"
    using c by auto
  then show ?thesis
    using f h a by blast
qed

text \<open>
  Claim C3, amended. For the row ingestion stores for a \<^verbatim>\<open>Record\<close> element, the
  column \<^verbatim>\<open>value_num\<close> of the view is null exactly when the element has no
  \<^verbatim>\<open>value\<close> attribute, and otherwise the number SQLite reads off the head of the
  stored text: the decimal number itself for a text that is one, and 0.0, not null, for a
  text without any digit. No text raises an error.
\<close>

theorem value_num_is_cast_of_stored_value:
  "value_num (records_norm sa
     (last (rows_by_table (end_element lib wm st (ustr ''Record'') attrs) Records))) =
     (case map_of attrs (ustr ''value'') of None \<Rightarrow> SqlNull | Some v \<Rightarrow> SqlReal (sqlite_atof v)) \<and>
   (number_re_match ascii_digit s \<longrightarrow> sqlite_atof s = py_float ascii_digit s) \<and>
   ((\<forall>c\<in>set s'. ascii_digit c = None) \<longrightarrow> sqlite_atof s' = 0)"
  using value_num_record sqlite_atof_decimal sqlite_atof_no_digit by blast

text \<open>
  Claim C3, as stated, fails: the stored value \<^verbatim>\<open>abc\<close> is not numeric, and its
  \<^verbatim>\<open>value_num\<close> is 0.0 rather than null.
\<close>

theorem value_num_not_null_counterexample:
  "value_num (records_norm []
     (last (rows_by_table
        (end_element \<lparr>float_of = (\<lambda>s. None), json_dumps = (\<lambda>a. [])\<rparr> False
           (initial_state (\<lambda>t. [])) (ustr ''Record'')
           [(ustr ''type'', ustr ''HKCategoryTypeIdentifierSleepAnalysis''),
            (ustr ''value'', ustr ''abc'')]) Records))) = SqlReal 0"
proof -
  have "sqlite_atof (ustr ''abc'') = 0"
    by (rule sqlite_atof_no_digit) (simp add: ustr_def ascii_digit_def)
  then show ?thesis
    by (simp add: value_num_record)
qed

theorem value_num_witness:
  "number_re_match ascii_digit (ustr ''120'') \<and>
   sqlite_atof (ustr ''120'') = 120 \<and>
   sqlite_atof (ustr ''HKCategoryValueSleepAnalysisInBed'') = 0 \<and>
   value_num (records_norm []
     (last (rows_by_table
        (end_element \<lparr>float_of = (\<lambda>s. None), json_dumps = (\<lambda>a. [])\<rparr> False
           (initial_state (\<lambda>t. [])) (ustr ''Record'')
           [(ustr ''type'', ustr ''StepCount''), (ustr ''value'', ustr ''120'')]) Records))) =
     SqlReal 120"
proof -
  note inst = value_num_is_cast_of_stored_value
    [of "[]" "\<lparr>float_of = (\<lambda>s. None), json_dumps = (\<lambda>a. [])\<rparr>" False "initial_state (\<lambda>t. [])"
        "[(ustr ''type'', ustr ''StepCount''), (ustr ''value'', ustr ''120'')]" "ustr ''120''"
        "ustr ''HKCategoryValueSleepAnalysisInBed''"]
  have m: "number_re_match ascii_digit (ustr ''120'')"
    by (simp add: number_re_match_def ustr_def drop_sign_def at_end_def ascii_digit_def)
  have p: "py_float ascii_digit (ustr ''120'') = 120"
    by (simp add: py_float_def ustr_def drop_sign_def ascii_digit_def digits_value_def)
  have v: "sqlite_atof (ustr ''120'') = 120"
    using inst m p by simp
  have nd: "\<forall>c\<in>set (ustr ''HKCategoryValueSleepAnalysisInBed''). ascii_digit c = None"
    by (simp add: ustr_def ascii_digit_def)
  have z: "sqlite_atof (ustr ''HKCategoryValueSleepAnalysisInBed'') = 0"
    using inst nd by blast
  have "value_num (records_norm []
     (last (rows_by_table
        (end_element \<lparr>float_of = (\<lambda>s. None), json_dumps = (\<lambda>a. [])\<rparr> False
           (initial_state (\<lambda>t. [])) (ustr ''Record'')
           [(ustr ''type'', ustr ''StepCount''), (ustr ''value'', ustr ''120'')]) Records))) =
     SqlReal (sqlite_atof (ustr ''120''))"
    using inst by simp
  then show ?thesis
    using m v z by simp
qed

end
